theory Spec2Isabelle
  imports
    Main
    "HOL-Library.Word"
    "HOL-Library.Multiset"
    "HOL-Library.Char_ord"
    "HOL-Library.List_Lexorder"
begin

section \<open>Data model (package database)\<close>

text \<open>
  Go strings are byte strings; \<open>string\<close> (a list of 8-bit characters) models them, and
  the order on it (HOL-Library.Char_ord with HOL-Library.List_Lexorder) is the bytewise
  lexicographic order that Go's \<^verbatim>\<open>cmp.Compare\<close> uses on strings.  The
  \<^verbatim>\<open>uint32\<close> tunnel fields are 32-bit words.
\<close>

record VLAN =
  ID :: string
  Name :: string
  Default :: bool
  TunnelType :: "32 word"
  TunnelMediumType :: "32 word"

record BlockedUser =
  Username :: string

record User =
  Username :: string
  Password :: string
  VlanID :: string
  Description :: string

text \<open>
  The sentinel errors of \<^verbatim>\<open>internal/database/errors.go\<close> and of the YAML layer.
  The code wraps them with \<^verbatim>\<open>fmt.Errorf("...: %w", err)\<close>; the model keeps the
  sentinel that \<^verbatim>\<open>errors.Is\<close> finds.  \<open>ErrIO\<close> stands for any error of the
  operating system or of the YAML codec.
\<close>

datatype error =
    ErrUserNotFound
  | ErrUserAlreadyExists
  | ErrVLANNotFound
  | ErrVLANAlreadyExists
  | ErrDefaultVLANNotFound
  | ErrDefaultVLANAlreadyExists
  | ErrBlockedUserNotFound
  | ErrUserAlreadyBlocked
  | ErrRelativeFile
  | ErrIO

section \<open>The in-memory registry (package memorydatabase)\<close>

text \<open>
  The three Go maps hold pointers to values that are never written through after they
  are stored (an update stores a fresh pointer), so a map from keys to values captures
  them.  \<open>defaultVLAN\<close> is the pointer of the same name: \<open>None\<close> is \<^verbatim>\<open>nil\<close>.
\<close>

record MemoryDatabase =
  users :: "string \<rightharpoonup> User"
  vlans :: "string \<rightharpoonup> VLAN"
  blockedUsers :: "string \<rightharpoonup> BlockedUser"
  defaultVLAN :: "VLAN option"

definition NewMemoryDatabase :: MemoryDatabase where
  "NewMemoryDatabase =
     \<lparr>users = Map.empty, vlans = Map.empty, blockedUsers = Map.empty, defaultVLAN = None\<rparr>"

text \<open>
  A mutating method changes the receiver in place and returns an error or \<^verbatim>\<open>nil\<close>.
  The model returns the registry as the call leaves it together with the error, so that
  what a failed call did to the registry stays visible.
\<close>

type_synonym 'a outcome = "'a \<times> error option"

definition GetVLAN :: "MemoryDatabase \<Rightarrow> string \<Rightarrow> error + VLAN" where
  "GetVLAN d i = (case vlans d i of None \<Rightarrow> Inl ErrVLANNotFound | Some vlan \<Rightarrow> Inr vlan)"

definition CreateVLAN :: "MemoryDatabase \<Rightarrow> VLAN \<Rightarrow> MemoryDatabase outcome" where
  "CreateVLAN d v =
     (if vlans d (ID v) \<noteq> None then (d, Some ErrVLANAlreadyExists)
      else if Default v then
        (if defaultVLAN d \<noteq> None then (d, Some ErrDefaultVLANAlreadyExists)
         else (d\<lparr>defaultVLAN := Some v, vlans := (vlans d)(ID v \<mapsto> v)\<rparr>, None))
      else (d\<lparr>vlans := (vlans d)(ID v \<mapsto> v)\<rparr>, None))"

definition UpdateVLAN :: "MemoryDatabase \<Rightarrow> VLAN \<Rightarrow> MemoryDatabase outcome" where
  "UpdateVLAN d v =
     (if vlans d (ID v) = None then (d, Some ErrVLANNotFound)
      else (d\<lparr>vlans := (vlans d)(ID v \<mapsto> v)\<rparr>, None))"

definition DeleteVLAN :: "MemoryDatabase \<Rightarrow> string \<Rightarrow> MemoryDatabase outcome" where
  "DeleteVLAN d i =
     (if vlans d i = None then (d, Some ErrVLANNotFound)
      else (d\<lparr>vlans := (vlans d)(i := None)\<rparr>, None))"

definition GetDefaultVLAN :: "MemoryDatabase \<Rightarrow> error + VLAN" where
  "GetDefaultVLAN d =
     (case defaultVLAN d of None \<Rightarrow> Inl ErrDefaultVLANNotFound | Some vlan \<Rightarrow> Inr vlan)"

definition GetUser :: "MemoryDatabase \<Rightarrow> string \<Rightarrow> error + User" where
  "GetUser d username =
     (case users d username of None \<Rightarrow> Inl ErrUserNotFound | Some user \<Rightarrow> Inr user)"

definition CreateUser :: "MemoryDatabase \<Rightarrow> User \<Rightarrow> MemoryDatabase outcome" where
  "CreateUser d u =
     (if users d (User.Username u) \<noteq> None then (d, Some ErrUserAlreadyExists)
      else (case GetVLAN d (VlanID u) of
              Inl err \<Rightarrow> (d, Some err)
            | Inr _ \<Rightarrow> (d\<lparr>users := (users d)(User.Username u \<mapsto> u)\<rparr>, None)))"

definition UpdateUser :: "MemoryDatabase \<Rightarrow> User \<Rightarrow> MemoryDatabase outcome" where
  "UpdateUser d u =
     (if users d (User.Username u) = None then (d, Some ErrUserNotFound)
      else (d\<lparr>users := (users d)(User.Username u \<mapsto> u)\<rparr>, None))"

definition DeleteUser :: "MemoryDatabase \<Rightarrow> string \<Rightarrow> MemoryDatabase outcome" where
  "DeleteUser d username =
     (if users d username = None then (d, Some ErrUserNotFound)
      else (d\<lparr>users := (users d)(username := None),
               blockedUsers := (blockedUsers d)(username := None)\<rparr>, None))"

definition BlockUser :: "MemoryDatabase \<Rightarrow> string \<Rightarrow> MemoryDatabase outcome" where
  "BlockUser d username =
     (if blockedUsers d username \<noteq> None then (d, Some ErrUserAlreadyBlocked)
      else (d\<lparr>blockedUsers := (blockedUsers d)(username \<mapsto> \<lparr>BlockedUser.Username = username\<rparr>)\<rparr>,
            None))"

definition IsUserBlocked :: "MemoryDatabase \<Rightarrow> string \<Rightarrow> error + bool" where
  "IsUserBlocked d username = Inr (blockedUsers d username \<noteq> None)"

subsection \<open>Listing: ranging over a map, then sorting\<close>

text \<open>
  \<^verbatim>\<open>for _, x := range m { xs = append(xs, *x) }\<close> visits every key of the map once,
  in an order Go leaves unspecified.  \<open>iteration_of m ks\<close> says that \<open>ks\<close> is such an
  order, and \<open>range_values m ks\<close> is the slice the loop builds when it visits the keys in
  the order \<open>ks\<close>.  \<open>map_values m\<close> is what the map holds: one value for each key.
\<close>

definition iteration_of :: "('k \<rightharpoonup> 'v) \<Rightarrow> 'k list \<Rightarrow> bool" where
  "iteration_of m ks \<longleftrightarrow> distinct ks \<and> set ks = dom m"

definition range_values :: "('k \<rightharpoonup> 'v) \<Rightarrow> 'k list \<Rightarrow> 'v list" where
  "range_values m ks = List.map_filter m ks"

definition map_values :: "('k \<rightharpoonup> 'v) \<Rightarrow> 'v multiset" where
  "map_values m = image_mset (\<lambda>k. the (m k)) (mset_set (dom m))"

text \<open>
  \<^verbatim>\<open>strconv.Atoi\<close> is part of the Go library; the model follows the library's code
  for base 10 on a 64-bit platform (the installer supports amd64 and arm64 only).
  \<open>ParseUint_digits\<close> is the loop of \<^verbatim>\<open>ParseUint\<close> over the bytes of the text,
  with \<open>n\<close> the \<^verbatim>\<open>uint64\<close> read so far: a byte that is not a digit ends it with a
  syntax error and the value 0, and a digit that takes the number past
  \<^verbatim>\<open>maxUint64\<close> ends it with a range error and the value \<^verbatim>\<open>maxUint64\<close>,
  before any later byte is looked at.
\<close>

definition isDigit :: "char \<Rightarrow> bool" where
  "isDigit c = (CHR ''0'' \<le> c \<and> c \<le> CHR ''9'')"

definition digit_val :: "char \<Rightarrow> nat" where
  "digit_val c = of_char c - of_char CHR ''0''"

datatype NumError = ErrSyntax | ErrRange

definition maxUint64 :: nat where
  "maxUint64 = 2 ^ 64 - 1"

fun ParseUint_digits :: "nat \<Rightarrow> string \<Rightarrow> nat \<times> NumError option" where
  "ParseUint_digits n [] = (n, None)"
| "ParseUint_digits n (c # cs) =
     (if \<not> isDigit c then (0, Some ErrSyntax)
      else if n \<ge> maxUint64 div 10 + 1 then (maxUint64, Some ErrRange)
      else let n10 = (n * 10) mod 2 ^ 64;
               n1 = (n10 + digit_val c) mod 2 ^ 64
           in if n1 < n10 \<or> n1 > maxUint64 then (maxUint64, Some ErrRange)
              else ParseUint_digits n1 cs)"

definition ParseUint :: "string \<Rightarrow> nat \<times> NumError option" where
  "ParseUint s = (if s = [] then (0, Some ErrSyntax) else ParseUint_digits 0 s)"

text \<open>
  \<^verbatim>\<open>ParseInt\<close> takes off a sign, calls \<^verbatim>\<open>ParseUint\<close>, returns 0 for a syntax
  error and otherwise (also after a range error) brings the number into the range of
  \<^verbatim>\<open>int64\<close>.
\<close>

definition ParseInt :: "string \<Rightarrow> int \<times> NumError option" where
  "ParseInt s =
     (if s = [] then (0, Some ErrSyntax)
      else
        let neg = (hd s = CHR ''-'');
            s1 = (if hd s = CHR ''+'' \<or> hd s = CHR ''-'' then tl s else s)
        in case ParseUint s1 of
             (un, Some ErrSyntax) \<Rightarrow> (0, Some ErrSyntax)
           | (un, _) \<Rightarrow>
               if \<not> neg \<and> un \<ge> 2 ^ 63 then (2 ^ 63 - 1, Some ErrRange)
               else if neg \<and> un > 2 ^ 63 then (- (2 ^ 63), Some ErrRange)
               else (if neg then - int un else int un, None))"

text \<open>
  \<^verbatim>\<open>Atoi\<close> has a fast path for texts of 1 to 18 bytes, which cannot overflow, and
  calls \<^verbatim>\<open>ParseInt\<close> for all others.  It returns the number and the error.
\<close>

fun fast_digits :: "int \<Rightarrow> string \<Rightarrow> int option" where
  "fast_digits n [] = Some n"
| "fast_digits n (c # cs) =
     (if \<not> isDigit c then None else fast_digits (n * 10 + int (digit_val c)) cs)"

definition Atoi :: "string \<Rightarrow> int \<times> NumError option" where
  "Atoi s =
     (if 0 < length s \<and> length s < 19 then
        let signed = (hd s = CHR ''-'' \<or> hd s = CHR ''+'');
            s1 = (if signed then tl s else s)
        in if signed \<and> length s1 < 1 then (0, Some ErrSyntax)
           else (case fast_digits 0 s1 of
                   None \<Rightarrow> (0, Some ErrSyntax)
                 | Some n \<Rightarrow> (if hd s = CHR ''-'' then - n else n, None))
      else ParseInt s)"

text \<open>
  Words for what a text denotes: its sign, the text after the sign, the number a run
  of digits denotes, the texts that are an integer (an optional sign and one or more
  digits), and the texts whose leading digits already pass \<^verbatim>\<open>maxUint64\<close>.
\<close>

definition negative :: "string \<Rightarrow> bool" where
  "negative s = (s \<noteq> [] \<and> hd s = CHR ''-'')"

definition unsigned_part :: "string \<Rightarrow> string" where
  "unsigned_part s = (if s \<noteq> [] \<and> (hd s = CHR ''+'' \<or> hd s = CHR ''-'') then tl s else s)"

definition decimal :: "string \<Rightarrow> nat" where
  "decimal s = foldl (\<lambda>n c. n * 10 + digit_val c) 0 s"

definition integer_text :: "string \<Rightarrow> bool" where
  "integer_text s = (unsigned_part s \<noteq> [] \<and> list_all isDigit (unsigned_part s))"

definition integer_value :: "string \<Rightarrow> int" where
  "integer_value s =
     (if negative s then - int (decimal (unsigned_part s)) else int (decimal (unsigned_part s)))"

definition digits_overflow :: "string \<Rightarrow> bool" where
  "digits_overflow s = (2 ^ 64 \<le> decimal (takeWhile isDigit (unsigned_part s)))"

text \<open>
  \<^verbatim>\<open>strings.ToLower\<close>: on a string of ASCII bytes it lowers the letters A to Z; on
  any other string it maps the runes through the Unicode tables, which the model takes
  as the parameter \<open>unicode_lower\<close>.
\<close>

definition ascii_lower :: "char \<Rightarrow> char" where
  "ascii_lower c =
     (if CHR ''A'' \<le> c \<and> c \<le> CHR ''Z'' then char_of (of_char c + (32::nat)) else c)"

definition ToLower :: "(string \<Rightarrow> string) \<Rightarrow> string \<Rightarrow> string" where
  "ToLower unicode_lower s =
     (if list_all (\<lambda>c. of_char c < (128::nat)) s then map ascii_lower s else unicode_lower s)"

text \<open>\<^verbatim>\<open>cmp.Compare\<close> on integers and on strings (no NaN to consider).\<close>

definition Compare :: "'a::linorder \<Rightarrow> 'a \<Rightarrow> int" where
  "Compare x y = (if x < y then - 1 else if y < x then 1 else 0)"

text \<open>
  \<^verbatim>\<open>slices.SortFunc\<close> is part of the Go library.  It sorts the slice in ascending
  order as the comparison function determines and does not promise to keep the order of
  elements that compare equal.  On a slice of at most twelve elements it runs
  \<^verbatim>\<open>insertionSortCmpFunc\<close>, which is what the model runs on every slice:
  \<^verbatim>\<open>for i := a + 1; i < b; i++ { for j := i; j > a && cmp(data[j], data[j-1]) < 0; j-- { swap } }\<close>.
  \<open>insert_last cmp ys x\<close> is the inner loop: \<open>ys\<close> is the part of the slice before
  index \<open>i\<close> and \<open>x\<close> the element at \<open>i\<close>, which moves towards the front while it compares
  less than the element before it.
\<close>

function insert_last :: "('a \<Rightarrow> 'a \<Rightarrow> int) \<Rightarrow> 'a list \<Rightarrow> 'a \<Rightarrow> 'a list" where
  "insert_last cmp ys x =
     (if ys \<noteq> [] \<and> cmp x (last ys) < 0 then insert_last cmp (butlast ys) x @ [last ys]
      else ys @ [x])"
  by pat_completeness auto
termination
  by (relation "measure (\<lambda>(cmp, ys, x). length ys)") auto

declare insert_last.simps [simp del]

definition insertionSortCmpFunc :: "('a \<Rightarrow> 'a \<Rightarrow> int) \<Rightarrow> 'a list \<Rightarrow> 'a list" where
  "insertionSortCmpFunc cmp data = foldl (insert_last cmp) [] data"

definition SortFunc :: "('a \<Rightarrow> 'a \<Rightarrow> int) \<Rightarrow> 'a list \<Rightarrow> 'a list" where
  "SortFunc cmp data = insertionSortCmpFunc cmp data"

text \<open>
  The three listing methods.  The first argument is the order in which the
  \<^verbatim>\<open>range\<close> loop of the call visits the keys of the map; the error they return is
  always \<^verbatim>\<open>nil\<close>.
\<close>

definition GetVLANs :: "string list \<Rightarrow> MemoryDatabase \<Rightarrow> VLAN list" where
  "GetVLANs ks d =
     SortFunc (\<lambda>a b. Compare (fst (Atoi (ID a))) (fst (Atoi (ID b))))
       (range_values (vlans d) ks)"

definition GetUsers :: "(string \<Rightarrow> string) \<Rightarrow> string list \<Rightarrow> MemoryDatabase \<Rightarrow> User list" where
  "GetUsers unicode_lower ks d =
     SortFunc (\<lambda>a b. Compare (ToLower unicode_lower (User.Username a))
                              (ToLower unicode_lower (User.Username b)))
       (range_values (users d) ks)"

definition GetBlockedUsers ::
  "(string \<Rightarrow> string) \<Rightarrow> string list \<Rightarrow> MemoryDatabase \<Rightarrow> BlockedUser list" where
  "GetBlockedUsers unicode_lower ks d =
     SortFunc (\<lambda>a b. Compare (ToLower unicode_lower (BlockedUser.Username a))
                              (ToLower unicode_lower (BlockedUser.Username b)))
       (range_values (blockedUsers d) ks)"

text \<open>
  \<^verbatim>\<open>UnblockUser\<close> calls \<^verbatim>\<open>d.GetVLANs()\<close> when no default VLAN is set; the
  first argument is the slice that call returns, \<open>GetVLANs ks d\<close> for the order \<open>ks\<close> in
  which the call visits the VLANs (its error is always \<^verbatim>\<open>nil\<close>).  The blocklist
  entry is deleted before the device is looked at.
\<close>

definition UnblockUser :: "VLAN list \<Rightarrow> MemoryDatabase \<Rightarrow> string \<Rightarrow> MemoryDatabase outcome" where
  "UnblockUser listed d username =
     (if blockedUsers d username = None then (d, Some ErrBlockedUserNotFound)
      else
        let d1 = d\<lparr>blockedUsers := (blockedUsers d)(username := None)\<rparr>;
            new_user = (\<lambda>vlan. \<lparr>User.Username = username, Password = username,
                                 VlanID = ID vlan, Description = []\<rparr>)
        in if users d1 username = None then
             (case GetDefaultVLAN d1 of
                Inr vlan \<Rightarrow> (d1\<lparr>users := (users d1)(username \<mapsto> new_user vlan)\<rparr>, None)
              | Inl _ \<Rightarrow>
                  (case listed of
                     [] \<Rightarrow> (d1, Some ErrVLANNotFound)
                   | vlan # _ \<Rightarrow> (d1\<lparr>users := (users d1)(username \<mapsto> new_user vlan)\<rparr>, None)))
           else (d1, None))"

subsection \<open>Invariants of the registry\<close>

text \<open>
  Every entry is stored under its own key and the maps are finite; the constructor and
  all methods keep this.
\<close>

definition wf_db :: "MemoryDatabase \<Rightarrow> bool" where
  "wf_db d \<longleftrightarrow>
     finite (dom (users d)) \<and> finite (dom (vlans d)) \<and> finite (dom (blockedUsers d)) \<and>
     (\<forall>k u. users d k = Some u \<longrightarrow> User.Username u = k) \<and>
     (\<forall>k v. vlans d k = Some v \<longrightarrow> ID v = k) \<and>
     (\<forall>k b. blockedUsers d k = Some b \<longrightarrow> BlockedUser.Username b = k)"

text \<open>V1: no two VLANs of the registry have \<open>default = true\<close>.\<close>

definition V1 :: "MemoryDatabase \<Rightarrow> bool" where
  "V1 d \<longleftrightarrow>
     \<not> (\<exists>i j v w. i \<noteq> j \<and> vlans d i = Some v \<and> Default v \<and> vlans d j = Some w \<and> Default w)"

text \<open>V2, as a property of a state: every device's \<open>vlanId\<close> names a VLAN of the registry.\<close>

definition V2 :: "MemoryDatabase \<Rightarrow> bool" where
  "V2 d \<longleftrightarrow> (\<forall>k u. users d k = Some u \<longrightarrow> vlans d (VlanID u) \<noteq> None)"

text \<open>
  The default-VLAN pointer agrees with the flags: it holds exactly the VLAN of the
  registry that is flagged default, and nothing when none is flagged.
\<close>

definition default_agrees :: "MemoryDatabase \<Rightarrow> bool" where
  "default_agrees d \<longleftrightarrow>
     (\<forall>v. defaultVLAN d = Some v \<longleftrightarrow> (\<exists>i. vlans d i = Some v \<and> Default v))"

text \<open>A sequence of VLAN mutations; a call that fails returns its error and the next call runs.\<close>

datatype vlan_op = OpCreateVLAN VLAN | OpUpdateVLAN VLAN | OpDeleteVLAN string

fun apply_vlan_op :: "MemoryDatabase \<Rightarrow> vlan_op \<Rightarrow> MemoryDatabase outcome" where
  "apply_vlan_op d (OpCreateVLAN v) = CreateVLAN d v"
| "apply_vlan_op d (OpUpdateVLAN v) = UpdateVLAN d v"
| "apply_vlan_op d (OpDeleteVLAN i) = DeleteVLAN d i"

fun run_vlan_ops :: "MemoryDatabase \<Rightarrow> vlan_op list \<Rightarrow> MemoryDatabase" where
  "run_vlan_ops d [] = d"
| "run_vlan_ops d (x # xs) = run_vlan_ops (fst (apply_vlan_op d x)) xs"

section \<open>The RADIUS request pipeline (package radiusserver)\<close>

text \<open>
  The RADIUS library is outside the repository.  A response packet is modelled by its
  code, the identifier it copies from the request, and the three RFC 2868 attributes the
  handler sets; each setter stores the tag and the value it is given, replacing an
  earlier attribute of its type.  \<^verbatim>\<open>r.Response(code)\<close> builds a packet with the
  request's identifier and no attribute.
\<close>

datatype Code = CodeAccessAccept | CodeAccessReject

record Packet =
  Code :: Code
  Identifier :: "8 word"
  TunnelPrivateGroupID_attr :: "(8 word \<times> string) option"
  TunnelType_attr :: "(8 word \<times> 32 word) option"
  TunnelMediumType_attr :: "(8 word \<times> 32 word) option"

record Request =
  UserName :: string
  UserPassword :: string
  CallingStationID :: string
  RequestIdentifier :: "8 word"

definition Response :: "Request \<Rightarrow> Code \<Rightarrow> Packet" where
  "Response r c =
     \<lparr>Code = c, Identifier = RequestIdentifier r, TunnelPrivateGroupID_attr = None,
      TunnelType_attr = None, TunnelMediumType_attr = None\<rparr>"

definition TunnelPrivateGroupID_SetString :: "Packet \<Rightarrow> 8 word \<Rightarrow> string \<Rightarrow> Packet" where
  "TunnelPrivateGroupID_SetString p tag s = p\<lparr>TunnelPrivateGroupID_attr := Some (tag, s)\<rparr>"

definition TunnelType_Set :: "Packet \<Rightarrow> 8 word \<Rightarrow> 32 word \<Rightarrow> Packet" where
  "TunnelType_Set p tag x = p\<lparr>TunnelType_attr := Some (tag, x)\<rparr>"

definition TunnelMediumType_Set :: "Packet \<Rightarrow> 8 word \<Rightarrow> 32 word \<Rightarrow> Packet" where
  "TunnelMediumType_Set p tag x = p\<lparr>TunnelMediumType_attr := Some (tag, x)\<rparr>"

definition vlanTunnelType :: "32 word" where
  "vlanTunnelType = 13"

definition TunnelMediumType_Value_IEEE802 :: "32 word" where
  "TunnelMediumType_Value_IEEE802 = 6"

definition setPacketVLAN :: "Packet \<Rightarrow> VLAN \<Rightarrow> Packet" where
  "setPacketVLAN packet vlan =
     (let p1 = TunnelPrivateGroupID_SetString packet 0 (ID vlan);
          p2 = (if TunnelType vlan \<noteq> 0 then TunnelType_Set p1 0 (TunnelType vlan)
                else TunnelType_Set p1 0 vlanTunnelType)
      in if TunnelMediumType vlan \<noteq> 0 then TunnelMediumType_Set p2 0 (TunnelMediumType vlan)
         else TunnelMediumType_Set p2 0 TunnelMediumType_Value_IEEE802)"

text \<open>
  The handler reads the registry through the \<^verbatim>\<open>database.Database\<close> interface.  The
  record below holds the four methods it calls, as the answers one snapshot gives.
\<close>

record Database =
  db_GetDefaultVLAN :: "error + VLAN"
  db_IsUserBlocked :: "string \<Rightarrow> error + bool"
  db_GetUser :: "string \<Rightarrow> error + User"
  db_GetVLAN :: "string \<Rightarrow> error + VLAN"

definition memory_Database :: "MemoryDatabase \<Rightarrow> Database" where
  "memory_Database d =
     \<lparr>db_GetDefaultVLAN = GetDefaultVLAN d, db_IsUserBlocked = IsUserBlocked d,
      db_GetUser = GetUser d, db_GetVLAN = GetVLAN d\<rparr>"

text \<open>A call \<^verbatim>\<open>botServer.NotifyLoginAttempt(username, password, macAddress)\<close>.\<close>

datatype notification = NotifyLoginAttempt string string string

text \<open>
  The handler function of \<^verbatim>\<open>StartServer\<close>: the response it writes and the
  notifications it emits, in order.  Logging does not influence either and is left out.
\<close>

definition default_response :: "Database \<Rightarrow> Request \<Rightarrow> Packet" where
  "default_response db r =
     (case db_GetDefaultVLAN db of
        Inl _ \<Rightarrow> Response r CodeAccessReject
      | Inr vlan \<Rightarrow> setPacketVLAN (Response r CodeAccessAccept) vlan)"

definition handler :: "Database \<Rightarrow> Request \<Rightarrow> Packet \<times> notification list" where
  "handler db r =
     (let username = UserName r;
          password = UserPassword r;
          macAddress = CallingStationID r;
          response = default_response db r
      in case db_IsUserBlocked db username of
           Inl _ \<Rightarrow> (Response r CodeAccessReject, [])
         | Inr userBlocked \<Rightarrow>
             if userBlocked then (Response r CodeAccessReject, [])
             else (case db_GetUser db username of
                     Inl _ \<Rightarrow> (response, [NotifyLoginAttempt username password macAddress])
                   | Inr user \<Rightarrow>
                       if Password user \<noteq> password then (Response r CodeAccessReject, [])
                       else (case db_GetVLAN db (VlanID user) of
                               Inl _ \<Rightarrow> (response, [])
                             | Inr vlan \<Rightarrow>
                                 (setPacketVLAN (Response r CodeAccessAccept) vlan, []))))"

section \<open>The YAML-backed registry (package yamldatabase)\<close>

text \<open>The struct that is encoded to and decoded from the file.\<close>

record yamlFile =
  Users :: "User list"
  VLANs :: "VLAN list"
  BlockedUsers :: "BlockedUser list"

text \<open>
  The YAML codec is outside the repository; what it is asked to do is fixed by the
  \<^verbatim>\<open>yaml:"..."\<close> tags of the structs.  A file that can be decoded is modelled by
  the keys it holds: for every tag the value under that key, of the type of the field,
  or nothing when the key is missing.  Every other content of a file cannot be decoded.
\<close>

record VLAN_node =
  id_key :: "string option"
  name_key :: "string option"
  default_key :: "bool option"
  tunnelType_key :: "32 word option"
  tunnelMediumType_key :: "32 word option"

record User_node =
  username_key :: "string option"
  password_key :: "string option"
  vlan_key :: "string option"
  description_key :: "string option"

record BlockedUser_node =
  blocked_username_key :: "string option"

record yaml_document =
  users_key :: "User_node list option"
  vlans_key :: "VLAN_node list option"
  blocked_key :: "BlockedUser_node list option"

datatype content = Undecodable | Document yaml_document

text \<open>
  The encoder writes every field under its key, and leaves out a field tagged
  \<^verbatim>\<open>omitempty\<close> that holds the zero value of its type.  The decoder leaves a field
  whose key is missing at its zero value.
\<close>

definition omitempty :: "'a \<Rightarrow> 'a \<Rightarrow> 'a option" where
  "omitempty zero x = (if x = zero then None else Some x)"

definition or_zero :: "'a \<Rightarrow> 'a option \<Rightarrow> 'a" where
  "or_zero zero x = (case x of None \<Rightarrow> zero | Some y \<Rightarrow> y)"

definition encode_VLAN :: "VLAN \<Rightarrow> VLAN_node" where
  "encode_VLAN v =
     \<lparr>id_key = Some (ID v), name_key = Some (Name v),
      default_key = omitempty False (Default v),
      tunnelType_key = omitempty 0 (TunnelType v),
      tunnelMediumType_key = omitempty 0 (TunnelMediumType v)\<rparr>"

definition decode_VLAN :: "VLAN_node \<Rightarrow> VLAN" where
  "decode_VLAN n =
     \<lparr>ID = or_zero [] (id_key n), Name = or_zero [] (name_key n),
      Default = or_zero False (default_key n),
      TunnelType = or_zero 0 (tunnelType_key n),
      TunnelMediumType = or_zero 0 (tunnelMediumType_key n)\<rparr>"

definition encode_User :: "User \<Rightarrow> User_node" where
  "encode_User u =
     \<lparr>username_key = Some (User.Username u), password_key = Some (Password u),
      vlan_key = Some (VlanID u), description_key = omitempty [] (Description u)\<rparr>"

definition decode_User :: "User_node \<Rightarrow> User" where
  "decode_User n =
     \<lparr>User.Username = or_zero [] (username_key n), Password = or_zero [] (password_key n),
      VlanID = or_zero [] (vlan_key n), Description = or_zero [] (description_key n)\<rparr>"

definition encode_BlockedUser :: "BlockedUser \<Rightarrow> BlockedUser_node" where
  "encode_BlockedUser b = \<lparr>blocked_username_key = Some (BlockedUser.Username b)\<rparr>"

definition decode_BlockedUser :: "BlockedUser_node \<Rightarrow> BlockedUser" where
  "decode_BlockedUser n = \<lparr>BlockedUser.Username = or_zero [] (blocked_username_key n)\<rparr>"

definition Encode :: "yamlFile \<Rightarrow> yaml_document" where
  "Encode yf =
     \<lparr>users_key = Some (map encode_User (Users yf)),
      vlans_key = Some (map encode_VLAN (VLANs yf)),
      blocked_key = Some (map encode_BlockedUser (BlockedUsers yf))\<rparr>"

definition Decode :: "yaml_document \<Rightarrow> yamlFile" where
  "Decode doc =
     \<lparr>Users = map decode_User (or_zero [] (users_key doc)),
      VLANs = map decode_VLAN (or_zero [] (vlans_key doc)),
      BlockedUsers = map decode_BlockedUser (or_zero [] (blocked_key doc))\<rparr>"

type_synonym files = "string \<rightharpoonup> content"

text \<open>\<^verbatim>\<open>path.IsAbs\<close>: the path starts with a slash.\<close>

definition IsAbs :: "string \<Rightarrow> bool" where
  "IsAbs p = (case p of [] \<Rightarrow> False | c # _ \<Rightarrow> c = CHR ''/'')"

text \<open>
  The loops of \<^verbatim>\<open>loadFile\<close>: call the method on each element in turn and return
  at the first error.
\<close>

fun for_each :: "('s \<Rightarrow> 'a \<Rightarrow> 's outcome) \<Rightarrow> 's \<Rightarrow> 'a list \<Rightarrow> error + 's" where
  "for_each f s [] = Inr s"
| "for_each f s (x # xs) =
     (case f s x of
        (s', Some err) \<Rightarrow> Inl err
      | (s', None) \<Rightarrow> for_each f s' xs)"

definition load_yamlFile :: "yamlFile \<Rightarrow> error + MemoryDatabase" where
  "load_yamlFile yf =
     (case for_each CreateVLAN NewMemoryDatabase (VLANs yf) of
        Inl err \<Rightarrow> Inl err
      | Inr d1 \<Rightarrow>
          (case for_each CreateUser d1 (Users yf) of
             Inl err \<Rightarrow> Inl err
           | Inr d2 \<Rightarrow>
               for_each (\<lambda>d bu. BlockUser d (BlockedUser.Username bu)) d2 (BlockedUsers yf)))"

definition loadFile :: "files \<Rightarrow> string \<Rightarrow> error + MemoryDatabase" where
  "loadFile fs filePath =
     (if \<not> IsAbs filePath then Inl ErrRelativeFile
      else (case fs filePath of
              None \<Rightarrow> Inl ErrIO
            | Some Undecodable \<Rightarrow> Inl ErrIO
            | Some (Document doc) \<Rightarrow> load_yamlFile (Decode doc)))"

text \<open>
  The struct that \<^verbatim>\<open>dumpFile\<close> assembles from \<^verbatim>\<open>db.GetUsers()\<close>,
  \<^verbatim>\<open>db.GetVLANs()\<close> and \<^verbatim>\<open>db.GetBlockedUsers()\<close> on the registry \<open>d\<close>, when
  the three calls visit their maps in the orders \<open>ku\<close>, \<open>kv\<close> and \<open>kb\<close>.
\<close>

definition assemble_yamlFile ::
  "(string \<Rightarrow> string) \<Rightarrow> string list \<Rightarrow> string list \<Rightarrow> string list \<Rightarrow> MemoryDatabase
     \<Rightarrow> yamlFile" where
  "assemble_yamlFile unicode_lower ku kv kb d =
     \<lparr>Users = GetUsers unicode_lower ku d, VLANs = GetVLANs kv d,
      BlockedUsers = GetBlockedUsers unicode_lower kb d\<rparr>"

text \<open>
  What the operating system and the encoder do during one \<^verbatim>\<open>dumpFile\<close>: nothing
  fails, \<^verbatim>\<open>os.Create\<close> fails, or the file is created (truncated) and encoding fails.
\<close>

datatype io_fault = NoFault | CreateFails | EncodeFails

text \<open>
  \<^verbatim>\<open>dumpFile\<close>, given the struct \<open>yf\<close> assembled from the registry: the file is
  created, which empties it, and the encoded struct is written to it.
\<close>

definition dumpFile :: "io_fault \<Rightarrow> yamlFile \<Rightarrow> files \<Rightarrow> string \<Rightarrow> files outcome" where
  "dumpFile io yf fs filePath =
     (if \<not> IsAbs filePath then (fs, Some ErrRelativeFile)
      else (case io of
              CreateFails \<Rightarrow> (fs, Some ErrIO)
            | EncodeFails \<Rightarrow> (fs(filePath \<mapsto> Undecodable), Some ErrIO)
            | NoFault \<Rightarrow> (fs(filePath \<mapsto> Document (Encode yf)), None)))"

text \<open>The file watcher is outside the claims verified here and is left out of the record.\<close>

record YAMLDatabase =
  filePath :: string
  memory :: MemoryDatabase

definition NewYAMLDatabase :: "string \<Rightarrow> YAMLDatabase" where
  "NewYAMLDatabase p = \<lparr>filePath = p, memory = NewMemoryDatabase\<rparr>"

definition save :: "io_fault \<Rightarrow> yamlFile \<Rightarrow> files \<Rightarrow> YAMLDatabase \<Rightarrow> files outcome" where
  "save io yf fs y = dumpFile io yf fs (filePath y)"

text \<open>
  Every mutating method of the YAML layer has one shape: call the method of the
  in-memory registry, which works in place on \<open>d.memory\<close>, and return its error if it
  has one; otherwise call \<open>save\<close> and return its error if it has one.  \<open>io\<close> and \<open>yf\<close>
  are the fault and the listing of that \<open>save\<close>.
\<close>

definition then_save ::
  "io_fault \<Rightarrow> yamlFile \<Rightarrow> files \<Rightarrow> YAMLDatabase \<Rightarrow> MemoryDatabase outcome
     \<Rightarrow> (YAMLDatabase \<times> files) outcome" where
  "then_save io yf fs y r =
     (case r of
        (m, Some err) \<Rightarrow> ((y\<lparr>memory := m\<rparr>, fs), Some err)
      | (m, None) \<Rightarrow>
          (case save io yf fs (y\<lparr>memory := m\<rparr>) of
             (fs', Some err) \<Rightarrow> ((y\<lparr>memory := m\<rparr>, fs'), Some err)
           | (fs', None) \<Rightarrow> ((y\<lparr>memory := m\<rparr>, fs'), None)))"

definition yaml_CreateVLAN where
  "yaml_CreateVLAN io yf fs y v = then_save io yf fs y (CreateVLAN (memory y) v)"

definition yaml_UpdateVLAN where
  "yaml_UpdateVLAN io yf fs y v = then_save io yf fs y (UpdateVLAN (memory y) v)"

definition yaml_DeleteVLAN where
  "yaml_DeleteVLAN io yf fs y i = then_save io yf fs y (DeleteVLAN (memory y) i)"

definition yaml_CreateUser where
  "yaml_CreateUser io yf fs y u = then_save io yf fs y (CreateUser (memory y) u)"

definition yaml_UpdateUser where
  "yaml_UpdateUser io yf fs y u = then_save io yf fs y (UpdateUser (memory y) u)"

definition yaml_DeleteUser where
  "yaml_DeleteUser io yf fs y username = then_save io yf fs y (DeleteUser (memory y) username)"

definition yaml_BlockUser where
  "yaml_BlockUser io yf fs y username = then_save io yf fs y (BlockUser (memory y) username)"

definition yaml_UnblockUser where
  "yaml_UnblockUser listed io yf fs y username =
     then_save io yf fs y (UnblockUser listed (memory y) username)"

text \<open>\<open>load\<close> replaces the in-memory registry only when the file loads.\<close>

definition load :: "files \<Rightarrow> YAMLDatabase \<Rightarrow> YAMLDatabase outcome" where
  "load fs y =
     (case loadFile fs (filePath y) of
        Inl err \<Rightarrow> (y, Some err)
      | Inr db \<Rightarrow> (y\<lparr>memory := db\<rparr>, None))"

section \<open>The bounded correlation cache (package lru)\<close>

text \<open>
  \<open>Cache\<close> holds a capacity, a map from keys to elements of a doubly linked list
  (\<open>container/list\<close>) and the list itself, most recently used element first.  An element
  is a pointer; here it is a natural number, \<open>queue\<close> is the list of elements from front
  to back, and \<open>entries\<close> is the store giving the \<open>entry\<close> (key and value) an element
  points to.  \<open>allocated\<close> counts the elements created so far, so that \<open>PushFront\<close>
  returns an element that no earlier one equals.
\<close>

record ('k, 'v) Cache =
  capacity :: int
  cache :: "'k \<rightharpoonup> nat"
  queue :: "nat list"
  entries :: "nat \<rightharpoonup> 'k \<times> 'v"
  allocated :: nat

definition NewLRUCache :: "int \<Rightarrow> ('k, 'v) Cache" where
  "NewLRUCache n =
     \<lparr>capacity = n, cache = Map.empty, queue = [], entries = Map.empty, allocated = 0\<rparr>"

text \<open>
  \<open>MoveToFront\<close> of \<open>container/list\<close> does nothing for an element that is not in the
  list; \<open>Back\<close> is \<open>nil\<close> for the empty list.
\<close>

definition MoveToFront :: "nat \<Rightarrow> nat list \<Rightarrow> nat list" where
  "MoveToFront e q = (if e \<in> set q then e # remove1 e q else q)"

definition Back :: "nat list \<Rightarrow> nat option" where
  "Back q = (if q = [] then None else Some (last q))"

text \<open>
  \<open>Get\<close> returns the value and \<open>true\<close> as \<open>Some value\<close>, and the zero value and
  \<open>false\<close> as \<open>None\<close>; the cache after the call is returned with it.
\<close>

definition Cache_Get :: "('k, 'v) Cache \<Rightarrow> 'k \<Rightarrow> ('k, 'v) Cache \<times> 'v option" where
  "Cache_Get c key =
     (case cache c key of
        None \<Rightarrow> (c, None)
      | Some elem \<Rightarrow>
          (c\<lparr>queue := MoveToFront elem (queue c)\<rparr>, map_option snd (entries c elem)))"

text \<open>
  \<open>Set\<close> has no result: it updates and promotes the element of a key that is present,
  and otherwise pushes a new element and, when the list is longer than the capacity,
  removes the element at the back together with its key.
\<close>

definition Cache_Set :: "('k, 'v) Cache \<Rightarrow> 'k \<Rightarrow> 'v \<Rightarrow> ('k, 'v) Cache" where
  "Cache_Set c key val =
     (case cache c key of
        Some elem \<Rightarrow>
          c\<lparr>queue := MoveToFront elem (queue c),
            entries := (case entries c elem of
                          Some (k, _) \<Rightarrow> (entries c)(elem \<mapsto> (k, val))
                        | None \<Rightarrow> entries c)\<rparr>
      | None \<Rightarrow>
          let elem = allocated c;
              c1 = c\<lparr>queue := elem # queue c,
                     entries := (entries c)(elem \<mapsto> (key, val)),
                     allocated := Suc elem,
                     cache := (cache c)(key \<mapsto> elem)\<rparr>
          in if int (length (queue c1)) > capacity c1 then
               (case Back (queue c1) of
                  None \<Rightarrow> c1
                | Some oldest \<Rightarrow>
                    (case entries c1 oldest of
                       Some (k, _) \<Rightarrow>
                         c1\<lparr>queue := remove1 oldest (queue c1), cache := (cache c1)(k := None)\<rparr>
                     | None \<Rightarrow> c1))
             else c1)"

text \<open>The entries of the cache, most recently used first.\<close>

definition contents :: "('k, 'v) Cache \<Rightarrow> ('k \<times> 'v) list" where
  "contents c = List.map_filter (entries c) (queue c)"

text \<open>
  The invariant of the representation: the list has no element twice, every element
  of the list has been allocated and points to an entry, and the map sends a key to
  exactly the element of the list whose entry carries that key.
\<close>

definition cache_inv :: "('k, 'v) Cache \<Rightarrow> bool" where
  "cache_inv c \<longleftrightarrow>
     distinct (queue c) \<and>
     (\<forall>e\<in>set (queue c). e < allocated c \<and> entries c e \<noteq> None) \<and>
     (\<forall>k e. cache c k = Some e \<longleftrightarrow>
              e \<in> set (queue c) \<and> (\<exists>v. entries c e = Some (k, v)))"

text \<open>Sequences of calls on a cache.\<close>

datatype ('k, 'v) cache_op = OpSet 'k 'v | OpGet 'k

fun apply_cache_op :: "('k, 'v) Cache \<Rightarrow> ('k, 'v) cache_op \<Rightarrow> ('k, 'v) Cache" where
  "apply_cache_op c (OpSet k v) = Cache_Set c k v"
| "apply_cache_op c (OpGet k) = fst (Cache_Get c k)"

definition run_cache_ops :: "('k, 'v) Cache \<Rightarrow> ('k, 'v) cache_op list \<Rightarrow> ('k, 'v) Cache" where
  "run_cache_ops c ops = foldl apply_cache_op c ops"

definition cache_ok :: "int \<Rightarrow> ('k, 'v) Cache \<Rightarrow> bool" where
  "cache_ok n c \<longleftrightarrow> cache_inv c \<and> capacity c = n \<and> int (length (queue c)) \<le> n"

section \<open>Example registries and requests\<close>

text \<open>The literal scenarios S1 to S5 of the specification, used to run the model.\<close>

definition vlan1 :: VLAN where
  "vlan1 = \<lparr>ID = ''1'', Name = ''Default'', Default = True,
            TunnelType = 0, TunnelMediumType = 0\<rparr>"

definition vlan20 :: VLAN where
  "vlan20 = \<lparr>ID = ''20'', Name = ''IOT'', Default = False,
             TunnelType = 0, TunnelMediumType = 0\<rparr>"

definition mac1 :: string where
  "mac1 = ''aa:bb:cc:11:22:33''"

definition device1 :: User where
  "device1 = \<lparr>User.Username = mac1, Password = mac1, VlanID = ''20'', Description = []\<rparr>"

definition S1_registry :: MemoryDatabase where
  "S1_registry =
     \<lparr>users = Map.empty, vlans = [''1'' \<mapsto> vlan1, ''20'' \<mapsto> vlan20],
      blockedUsers = Map.empty, defaultVLAN = Some vlan1\<rparr>"

definition S2_registry :: MemoryDatabase where
  "S2_registry =
     \<lparr>users = Map.empty, vlans = [''1'' \<mapsto> vlan1\<lparr>Default := False\<rparr>, ''20'' \<mapsto> vlan20],
      blockedUsers = Map.empty, defaultVLAN = None\<rparr>"

definition S3_registry :: MemoryDatabase where
  "S3_registry = S1_registry\<lparr>users := [mac1 \<mapsto> device1]\<rparr>"

definition S5_registry :: MemoryDatabase where
  "S5_registry = S3_registry\<lparr>blockedUsers := [mac1 \<mapsto> \<lparr>BlockedUser.Username = mac1\<rparr>]\<rparr>"

definition request1 :: Request where
  "request1 = \<lparr>UserName = mac1, UserPassword = mac1, CallingStationID = mac1,
               RequestIdentifier = 7\<rparr>"

definition accept_with :: "Request \<Rightarrow> string \<Rightarrow> 32 word \<Rightarrow> 32 word \<Rightarrow> Packet" where
  "accept_with r gid tunnel medium =
     \<lparr>Code = CodeAccessAccept, Identifier = RequestIdentifier r,
      TunnelPrivateGroupID_attr = Some (0, gid), TunnelType_attr = Some (0, tunnel),
      TunnelMediumType_attr = Some (0, medium)\<rparr>"

text \<open>Registries in which \<open>mac1\<close> is blocked and has no device.\<close>

definition blocked_unknown :: MemoryDatabase where
  "blocked_unknown =
     S1_registry\<lparr>blockedUsers := [mac1 \<mapsto> \<lparr>BlockedUser.Username = mac1\<rparr>]\<rparr>"

definition blocked_no_default :: MemoryDatabase where
  "blocked_no_default =
     S2_registry\<lparr>blockedUsers := [mac1 \<mapsto> \<lparr>BlockedUser.Username = mac1\<rparr>]\<rparr>"

definition blocked_empty :: MemoryDatabase where
  "blocked_empty = fst (BlockUser NewMemoryDatabase mac1)"

text \<open>The default VLAN is created and deleted again, then \<open>mac1\<close> is blocked.\<close>

definition stale_default :: MemoryDatabase where
  "stale_default =
     fst (BlockUser (run_vlan_ops NewMemoryDatabase [OpCreateVLAN vlan1, OpDeleteVLAN ''1''])
            mac1)"

text \<open>
  A registry in which the only VLAN was flagged default by an update, with the file
  \<^verbatim>\<open>dumpFile\<close> writes for it; the file for scenario S5; a registry whose VLAN ids
  are names.
\<close>

definition flag_by_update :: MemoryDatabase where
  "flag_by_update =
     run_vlan_ops NewMemoryDatabase [OpCreateVLAN vlan20, OpUpdateVLAN (vlan20\<lparr>Default := True\<rparr>)]"

definition flag_by_update_file :: yamlFile where
  "flag_by_update_file = \<lparr>Users = [], VLANs = [vlan20\<lparr>Default := True\<rparr>], BlockedUsers = []\<rparr>"

definition S5_file :: yamlFile where
  "S5_file = \<lparr>Users = [device1], VLANs = [vlan1, vlan20],
              BlockedUsers = [\<lparr>BlockedUser.Username = mac1\<rparr>]\<rparr>"

definition vlan_guest :: VLAN where
  "vlan_guest = \<lparr>ID = ''guest'', Name = ''Guests'', Default = False,
                 TunnelType = 0, TunnelMediumType = 0\<rparr>"

definition vlan_iot :: VLAN where
  "vlan_iot = \<lparr>ID = ''iot'', Name = ''IOT'', Default = False,
               TunnelType = 0, TunnelMediumType = 0\<rparr>"

definition named_vlans :: MemoryDatabase where
  "named_vlans = run_vlan_ops NewMemoryDatabase [OpCreateVLAN vlan_guest, OpCreateVLAN vlan_iot]"

text \<open>A registry with VLAN 5 and a VLAN whose id is twenty digits and a letter.\<close>

definition vlan_5 :: VLAN where
  "vlan_5 = \<lparr>ID = ''5'', Name = ''Five'', Default = False,
             TunnelType = 0, TunnelMediumType = 0\<rparr>"

definition vlan_long :: VLAN where
  "vlan_long = \<lparr>ID = ''99999999999999999999x'', Name = ''Long'', Default = False,
                TunnelType = 0, TunnelMediumType = 0\<rparr>"

definition long_id_vlans :: MemoryDatabase where
  "long_id_vlans = run_vlan_ops NewMemoryDatabase [OpCreateVLAN vlan_long, OpCreateVLAN vlan_5]"

text \<open>YAML-backed registries holding scenario S1, at a relative and at an absolute path.\<close>

definition relative_db :: YAMLDatabase where
  "relative_db = (NewYAMLDatabase ''authifi.yaml'')\<lparr>memory := S1_registry\<rparr>"

definition absolute_db :: YAMLDatabase where
  "absolute_db = (NewYAMLDatabase ''/etc/authifi.yaml'')\<lparr>memory := S1_registry\<rparr>"

text \<open>A cache of capacity two after two insertions and a lookup of the older token.\<close>

definition demo_ops :: "(string, nat) cache_op list" where
  "demo_ops = [OpSet ''t1'' 10, OpSet ''t2'' 20, OpGet ''t1'']"

definition demo_cache :: "(string, nat) Cache" where
  "demo_cache = run_cache_ops (NewLRUCache 2) demo_ops"

section \<open>Properties of the RADIUS request pipeline\<close>

lemma setPacketVLAN_attrs:
  "TunnelPrivateGroupID_attr (setPacketVLAN p v) = Some (0, ID v)"
  "TunnelType_attr (setPacketVLAN p v) =
     Some (0, if TunnelType v \<noteq> 0 then TunnelType v else 13)"
  "TunnelMediumType_attr (setPacketVLAN p v) =
     Some (0, if TunnelMediumType v \<noteq> 0 then TunnelMediumType v else 6)"
  "Code (setPacketVLAN p v) = Code p"
  "Identifier (setPacketVLAN p v) = Identifier p"
  by (simp_all add: setPacketVLAN_def Let_def TunnelPrivateGroupID_SetString_def
      TunnelType_Set_def TunnelMediumType_Set_def vlanTunnelType_def
      TunnelMediumType_Value_IEEE802_def)

lemma memory_Database_simps:
  "db_GetDefaultVLAN (memory_Database d) = GetDefaultVLAN d"
  "db_IsUserBlocked (memory_Database d) = IsUserBlocked d"
  "db_GetUser (memory_Database d) = GetUser d"
  "db_GetVLAN (memory_Database d) = GetVLAN d"
  by (simp_all add: memory_Database_def)

lemmas registry_reads =
  memory_Database_simps GetDefaultVLAN_def IsUserBlocked_def GetUser_def GetVLAN_def

lemmas scenario_defs =
  S1_registry_def S2_registry_def S3_registry_def S5_registry_def request1_def
  vlan1_def vlan20_def device1_def mac1_def blocked_unknown_def blocked_no_default_def

lemma setPacketVLAN_accept_with:
  "setPacketVLAN (Response r CodeAccessAccept) v =
     accept_with r (ID v) (if TunnelType v \<noteq> 0 then TunnelType v else 13)
       (if TunnelMediumType v \<noteq> 0 then TunnelMediumType v else 6)"
  by (simp add: setPacketVLAN_def Let_def TunnelPrivateGroupID_SetString_def
      TunnelType_Set_def TunnelMediumType_Set_def vlanTunnelType_def
      TunnelMediumType_Value_IEEE802_def Response_def accept_with_def)

text \<open>
  Claim C1.  For every snapshot of the registry, read through the database interface,
  and every Access-Request, the handler follows the decision ladder, the first matching
  rung deciding.  The default response is Access-Accept with the default VLAN's
  attributes when \<open>GetDefaultVLAN\<close> succeeds and Access-Reject otherwise.  If the
  blocklist check errors or reports the user blocked, the response is Access-Reject and
  nothing is notified.  Otherwise, if the device lookup fails, the response is the
  default response and exactly \<open>NotifyLoginAttempt username password macAddress\<close> is
  emitted.  Otherwise, if the stored password differs, the response is Access-Reject and
  nothing is notified.  Otherwise, if the VLAN lookup fails, the default response is
  returned unchanged; otherwise the response is Access-Accept with the attributes of the
  device's VLAN.
\<close>

theorem handler_decision_ladder:
  fixes db :: Database and r :: Request
  defines "u \<equiv> UserName r"
  defines "reject \<equiv> Response r CodeAccessReject"
  shows
    "(default_response db r =
        (case db_GetDefaultVLAN db of
           Inr vlan \<Rightarrow> setPacketVLAN (Response r CodeAccessAccept) vlan
         | Inl e \<Rightarrow> reject))
     \<and> (db_IsUserBlocked db u \<noteq> Inr False \<longrightarrow> handler db r = (reject, []))
     \<and> (db_IsUserBlocked db u = Inr False \<longrightarrow>
          (\<forall>e. db_GetUser db u = Inl e \<longrightarrow>
             handler db r =
               (default_response db r,
                [NotifyLoginAttempt u (UserPassword r) (CallingStationID r)]))
          \<and> (\<forall>user. db_GetUser db u = Inr user \<longrightarrow>
               (Password user \<noteq> UserPassword r \<longrightarrow> handler db r = (reject, []))
               \<and> (Password user = UserPassword r \<longrightarrow>
                    (\<forall>e. db_GetVLAN db (VlanID user) = Inl e \<longrightarrow>
                       handler db r = (default_response db r, []))
                    \<and> (\<forall>vlan. db_GetVLAN db (VlanID user) = Inr vlan \<longrightarrow>
                         handler db r =
                           (setPacketVLAN (Response r CodeAccessAccept) vlan, [])))))"
proof -
  have dflt: "default_response db r =
      (case db_GetDefaultVLAN db of
         Inr vlan \<Rightarrow> setPacketVLAN (Response r CodeAccessAccept) vlan
       | Inl e \<Rightarrow> Response r CodeAccessReject)"
    by (simp add: default_response_def split: sum.splits)
  have blocked: "db_IsUserBlocked db (UserName r) \<noteq> Inr False \<longrightarrow>
      handler db r = (Response r CodeAccessReject, [])"
    by (auto simp: handler_def Let_def split: sum.splits)
  have open_door: "db_IsUserBlocked db (UserName r) = Inr False \<Longrightarrow>
      handler db r =
        (case db_GetUser db (UserName r) of
           Inl e \<Rightarrow> (default_response db r,
                     [NotifyLoginAttempt (UserName r) (UserPassword r) (CallingStationID r)])
         | Inr user \<Rightarrow>
             if Password user \<noteq> UserPassword r then (Response r CodeAccessReject, [])
             else (case db_GetVLAN db (VlanID user) of
                     Inl e \<Rightarrow> (default_response db r, [])
                   | Inr vlan \<Rightarrow> (setPacketVLAN (Response r CodeAccessAccept) vlan, [])))"
    by (simp add: handler_def Let_def)
  show ?thesis
    unfolding u_def reject_def
    using dflt blocked open_door by (auto split: sum.splits)
qed

theorem handler_decision_ladder_witness:
  "db_IsUserBlocked (memory_Database S1_registry) (UserName request1) = Inr False \<and>
   db_GetUser (memory_Database S1_registry) (UserName request1) = Inl ErrUserNotFound \<and>
   handler (memory_Database S1_registry) request1 =
     (accept_with request1 ''1'' 13 6, [NotifyLoginAttempt mac1 mac1 mac1])"
  using handler_decision_ladder [of "memory_Database S1_registry" request1]
  by (simp add: registry_reads setPacketVLAN_accept_with scenario_defs)

text \<open>The five request scenarios of the specification, run on the model.\<close>

lemma scenario_S1:
  "handler (memory_Database S1_registry) request1 =
     (accept_with request1 ''1'' 13 6, [NotifyLoginAttempt mac1 mac1 mac1])"
  by (simp add: handler_def Let_def default_response_def registry_reads
      setPacketVLAN_accept_with scenario_defs)

lemma scenario_S2:
  "handler (memory_Database S2_registry) request1 =
     (Response request1 CodeAccessReject, [NotifyLoginAttempt mac1 mac1 mac1])"
  by (simp add: handler_def Let_def default_response_def registry_reads scenario_defs)

lemma scenario_S3:
  "handler (memory_Database S3_registry) request1 = (accept_with request1 ''20'' 13 6, [])"
  by (simp add: handler_def Let_def default_response_def registry_reads
      setPacketVLAN_accept_with scenario_defs)

lemma scenario_S4:
  "handler (memory_Database S3_registry) (request1\<lparr>UserPassword := ''wrong''\<rparr>) =
     (Response (request1\<lparr>UserPassword := ''wrong''\<rparr>) CodeAccessReject, [])"
  by (simp add: handler_def Let_def default_response_def registry_reads scenario_defs)

lemma scenario_S5:
  "handler (memory_Database S5_registry) request1 = (Response request1 CodeAccessReject, [])"
  by (simp add: handler_def Let_def default_response_def registry_reads scenario_defs)

text \<open>
  Claim C6.  Whenever the handler answers Access-Accept, the response carries the
  attributes of a VLAN, the default VLAN or the device's own: Tunnel-Private-Group-ID
  with tag 0 and the VLAN's id, Tunnel-Type with tag 0 and the VLAN's \<open>tunnelType\<close> when
  that is non-zero and 13 when it is 0, Tunnel-Medium-Type with tag 0 and the VLAN's
  \<open>tunnelMediumType\<close> when that is non-zero and 6 when it is 0.
\<close>

theorem accept_carries_vlan_attributes:
  assumes "Code (fst (handler db r)) = CodeAccessAccept"
  shows "\<exists>vlan.
           (db_GetDefaultVLAN db = Inr vlan \<or>
            (\<exists>user. db_GetUser db (UserName r) = Inr user \<and>
                    db_GetVLAN db (VlanID user) = Inr vlan)) \<and>
           TunnelPrivateGroupID_attr (fst (handler db r)) = Some (0, ID vlan) \<and>
           TunnelType_attr (fst (handler db r)) =
             Some (0, if TunnelType vlan \<noteq> 0 then TunnelType vlan else 13) \<and>
           TunnelMediumType_attr (fst (handler db r)) =
             Some (0, if TunnelMediumType vlan \<noteq> 0 then TunnelMediumType vlan else 6)"
proof -
  have rejected: "Code (Response r CodeAccessReject) \<noteq> CodeAccessAccept"
    by (simp add: Response_def)
  consider
      (dflt) "fst (handler db r) = default_response db r"
    | (own) user vlan where "db_GetUser db (UserName r) = Inr user"
        and "db_GetVLAN db (VlanID user) = Inr vlan"
        and "fst (handler db r) = setPacketVLAN (Response r CodeAccessAccept) vlan"
    using assms rejected
    by (auto simp: handler_def Let_def split: sum.splits if_splits)
  then show ?thesis
  proof cases
    case dflt
    with assms rejected obtain vlan where "db_GetDefaultVLAN db = Inr vlan"
      and "fst (handler db r) = setPacketVLAN (Response r CodeAccessAccept) vlan"
      by (auto simp: default_response_def split: sum.splits)
    then show ?thesis
      by (intro exI [of _ vlan]) (simp add: setPacketVLAN_attrs)
  next
    case own
    then show ?thesis
      by (intro exI [of _ vlan]) (simp add: setPacketVLAN_attrs)
  qed
qed

theorem accept_carries_vlan_attributes_witness:
  "Code (fst (handler (memory_Database S3_registry) request1)) = CodeAccessAccept \<and>
   (\<exists>vlan.
      (db_GetDefaultVLAN (memory_Database S3_registry) = Inr vlan \<or>
       (\<exists>user. db_GetUser (memory_Database S3_registry) (UserName request1) = Inr user \<and>
               db_GetVLAN (memory_Database S3_registry) (VlanID user) = Inr vlan)) \<and>
      TunnelPrivateGroupID_attr (fst (handler (memory_Database S3_registry) request1)) =
        Some (0, ID vlan) \<and>
      TunnelType_attr (fst (handler (memory_Database S3_registry) request1)) =
        Some (0, if TunnelType vlan \<noteq> 0 then TunnelType vlan else 13) \<and>
      TunnelMediumType_attr (fst (handler (memory_Database S3_registry) request1)) =
        Some (0, if TunnelMediumType vlan \<noteq> 0 then TunnelMediumType vlan else 6))"
proof -
  have accepted:
    "Code (fst (handler (memory_Database S3_registry) request1)) = CodeAccessAccept"
    by (simp add: scenario_S3 accept_with_def)
  show ?thesis
    using accepted accept_carries_vlan_attributes [OF accepted] by simp
qed

section \<open>Properties of the in-memory registry\<close>


subsection \<open>Listings\<close>

lemma in_map_values: "x \<in># map_values m \<Longrightarrow> \<exists>k. m k = Some x"
proof -
  assume "x \<in># map_values m"
  then obtain k where "k \<in># mset_set (dom m)" and "x = the (m k)"
    by (auto simp: map_values_def)
  moreover from this have "k \<in> dom m"
    by (cases "finite (dom m)") auto
  ultimately show ?thesis by auto
qed

lemma set_map_values: "finite (dom m) \<Longrightarrow> set_mset (map_values m) = ran m"
  by (force simp: map_values_def ran_def dom_def)

lemma map_values_empty: "map_values Map.empty = {#}"
  by (simp add: map_values_def)

subsection \<open>Sorting\<close>

lemma insert_last_Nil: "insert_last cmp [] x = [x]"
  by (simp add: insert_last.simps)

lemma insert_last_snoc:
  "insert_last cmp (ys @ [y]) x =
     (if cmp x y < 0 then insert_last cmp ys x @ [y] else ys @ [y, x])"
  by (subst insert_last.simps) simp

lemma mset_insert_last: "mset (insert_last cmp ys x) = add_mset x (mset ys)"
  by (induction ys rule: rev_induct) (simp_all add: insert_last_Nil insert_last_snoc)

lemma set_insert_last: "set (insert_last cmp ys x) = insert x (set ys)"
  using mset_insert_last [of cmp ys x] by (metis set_mset_add_mset_insert set_mset_mset)

lemma Compare_less: "Compare x y < 0 \<longleftrightarrow> x < y"
  by (simp add: Compare_def)

lemma sorted_insert_last:
  assumes "sorted (map key ys)"
  shows "sorted (map key (insert_last (\<lambda>a b. Compare (key a) (key b)) ys x))"
  using assms
proof (induction ys rule: rev_induct)
  case Nil
  show ?case by (simp add: insert_last_Nil)
next
  case (snoc y ys)
  then have s: "sorted (map key ys)" and le: "\<forall>z\<in>set ys. key z \<le> key y"
    by (auto simp: sorted_append)
  show ?case
  proof (cases "key x < key y")
    case True
    with snoc.IH [OF s] le show ?thesis
      by (auto simp: insert_last_snoc Compare_less sorted_append set_insert_last)
  next
    case False
    with s le show ?thesis
      by (auto simp: insert_last_snoc Compare_less sorted_append)
  qed
qed

lemma insert_last_sorted:
  assumes "\<forall>z\<in>set ys. key z \<le> key x"
  shows "insert_last (\<lambda>a b. Compare (key a) (key b)) ys x = ys @ [x]"
  using assms by (cases ys rule: rev_cases) (auto simp: insert_last_Nil insert_last_snoc Compare_less)

lemma foldl_insert_last:
  "mset (foldl (insert_last cmp) acc xs) = mset acc + mset xs"
  by (induction xs arbitrary: acc) (simp_all add: mset_insert_last)

lemma foldl_insert_last_sorted:
  "sorted (map key acc) \<Longrightarrow>
     sorted (map key (foldl (insert_last (\<lambda>a b. Compare (key a) (key b))) acc xs))"
  by (induction xs arbitrary: acc) (simp_all add: sorted_insert_last)

lemma foldl_insert_last_id:
  "sorted (map key (acc @ xs)) \<Longrightarrow>
     foldl (insert_last (\<lambda>a b. Compare (key a) (key b))) acc xs = acc @ xs"
proof (induction xs arbitrary: acc)
  case Nil
  show ?case by simp
next
  case (Cons x xs)
  from Cons.prems have "\<forall>z\<in>set acc. key z \<le> key x"
    by (auto simp: sorted_append)
  then have "insert_last (\<lambda>a b. Compare (key a) (key b)) acc x = acc @ [x]"
    by (rule insert_last_sorted)
  moreover from Cons.prems have "sorted (map key ((acc @ [x]) @ xs))" by simp
  ultimately show ?case
    using Cons.IH [of "acc @ [x]"] by simp
qed

lemma mset_SortFunc: "mset (SortFunc cmp xs) = mset xs"
  by (simp add: SortFunc_def insertionSortCmpFunc_def foldl_insert_last)

lemma sorted_SortFunc: "sorted (map key (SortFunc (\<lambda>a b. Compare (key a) (key b)) xs))"
  unfolding SortFunc_def insertionSortCmpFunc_def
  by (rule foldl_insert_last_sorted) simp

lemma SortFunc_sorted:
  "sorted (map key xs) \<Longrightarrow> SortFunc (\<lambda>a b. Compare (key a) (key b)) xs = xs"
  unfolding SortFunc_def insertionSortCmpFunc_def
  using foldl_insert_last_id [of key "[]" xs] by simp

lemma mset_range_values:
  assumes "iteration_of m ks"
  shows "mset (range_values m ks) = map_values m"
proof -
  from assms have d: "distinct ks" and s: "set ks = dom m"
    by (simp_all add: iteration_of_def)
  have "\<forall>k\<in>set ks. m k \<noteq> None" using s by auto
  then have "List.map_filter m ks = map (\<lambda>k. the (m k)) ks"
    by (induction ks) (auto simp: map_filter_simps)
  then have "mset (range_values m ks) = image_mset (\<lambda>k. the (m k)) (mset ks)"
    by (simp add: range_values_def)
  also have "mset ks = mset_set (dom m)"
    using d s by (metis mset_set_set)
  finally show ?thesis by (simp add: map_values_def)
qed

lemma listing_mset:
  "iteration_of m ks \<Longrightarrow> mset (SortFunc cmp (range_values m ks)) = map_values m"
  by (simp add: mset_SortFunc mset_range_values)

lemmas listing_eval =
  SortFunc_def insertionSortCmpFunc_def insert_last.simps Compare_def range_values_def
  map_filter_simps

subsection \<open>Reading an id as a number\<close>

lemmas Atoi_eval =
  Atoi_def ParseInt_def ParseUint_def maxUint64_def isDigit_def digit_val_def Let_def

lemma digit_val_le: "isDigit c \<Longrightarrow> digit_val c \<le> 9"
  by (simp add: isDigit_def digit_val_def less_eq_char_def) arith

lemma foldl_digits_ge: "n \<le> foldl (\<lambda>n c. n * 10 + digit_val c) n cs"
proof (induction cs arbitrary: n)
  case Nil
  show ?case by simp
next
  case (Cons c cs)
  have "n \<le> n * 10 + digit_val c" by simp
  also have "\<dots> \<le> foldl (\<lambda>n c. n * 10 + digit_val c) (n * 10 + digit_val c) cs"
    by (rule Cons.IH)
  finally show ?case by simp
qed

lemma foldl_digits_less:
  "list_all isDigit cs \<Longrightarrow>
     foldl (\<lambda>n c. n * 10 + digit_val c) n cs < (n + 1) * 10 ^ length cs"
proof (induction cs arbitrary: n)
  case Nil
  show ?case by simp
next
  case (Cons c cs)
  then have d: "digit_val c \<le> 9" and rest: "list_all isDigit cs"
    by (simp_all add: digit_val_le)
  have "foldl (\<lambda>n c. n * 10 + digit_val c) (n * 10 + digit_val c) cs
          < (n * 10 + digit_val c + 1) * 10 ^ length cs"
    using rest by (rule Cons.IH)
  also have "\<dots> \<le> ((n + 1) * 10) * 10 ^ length cs"
    using d by (intro mult_right_mono) simp_all
  finally show ?case by (simp add: algebra_simps)
qed

lemma decimal_less: "list_all isDigit cs \<Longrightarrow> decimal cs < 10 ^ length cs"
  using foldl_digits_less [of cs 0] by (simp add: decimal_def)

lemma ParseUint_digits_value:
  assumes "n < 2 ^ 64"
  shows "ParseUint_digits n cs =
           (let run = takeWhile isDigit cs;
                v = foldl (\<lambda>n c. n * 10 + digit_val c) n run
            in if 2 ^ 64 \<le> v then (maxUint64, Some ErrRange)
               else if run \<noteq> cs then (0, Some ErrSyntax)
               else (v, None))"
  using assms
proof (induction cs arbitrary: n)
  case Nil
  then show ?case by simp
next
  case (Cons c cs)
  show ?case
  proof (cases "isDigit c")
    case False
    with Cons.prems show ?thesis by simp
  next
    case True
    then have d: "digit_val c \<le> 9" by (rule digit_val_le)
    let ?v = "foldl (\<lambda>n c. n * 10 + digit_val c) (n * 10 + digit_val c) (takeWhile isDigit cs)"
    have ge: "n * 10 + digit_val c \<le> ?v" by (rule foldl_digits_ge)
    show ?thesis
    proof (cases "n * 10 + digit_val c < 2 ^ 64")
      case False
      then have big: "2 ^ 64 \<le> ?v" using ge by simp
      have "maxUint64 div 10 + 1 \<le> n \<or>
            (n * 10 mod 2 ^ 64 + digit_val c) mod 2 ^ 64 < n * 10 mod 2 ^ 64"
      proof (cases "maxUint64 div 10 + 1 \<le> n")
        case True
        then show ?thesis by simp
      next
        case small: False
        then have "n * 10 < 2 ^ 64" by (simp add: maxUint64_def)
        then have m: "n * 10 mod 2 ^ 64 = n * 10" by simp
        from False d \<open>n * 10 < 2 ^ 64\<close>
        have "(n * 10 + digit_val c) mod 2 ^ 64 = n * 10 + digit_val c - 2 ^ 64"
          by (simp add: mod_if)
        moreover from False d have "n * 10 + digit_val c - 2 ^ 64 < n * 10"
          by simp
        ultimately show ?thesis unfolding m by simp
      qed
      with True big show ?thesis
        by (auto simp: Let_def)
    next
      case fits: True
      then have "n * 10 < 2 ^ 64" by simp
      then have small: "\<not> maxUint64 div 10 + 1 \<le> n" by (simp add: maxUint64_def)
      from fits \<open>n * 10 < 2 ^ 64\<close>
      have m: "(n * 10 mod 2 ^ 64 + digit_val c) mod 2 ^ 64 = n * 10 + digit_val c"
        "n * 10 mod 2 ^ 64 = n * 10"
        by simp_all
      have le: "n * 10 + digit_val c \<le> maxUint64" using fits by (simp add: maxUint64_def)
      from True small m le Cons.IH [OF fits] show ?thesis
        by (simp add: Let_def)
    qed
  qed
qed

lemma ParseUint_value:
  "ParseUint s =
     (let run = takeWhile isDigit s
      in if s = [] then (0, Some ErrSyntax)
         else if 2 ^ 64 \<le> decimal run then (maxUint64, Some ErrRange)
         else if run \<noteq> s then (0, Some ErrSyntax)
         else (decimal run, None))"
  by (simp add: ParseUint_def ParseUint_digits_value decimal_def Let_def)

lemma fast_digits_value:
  "fast_digits (int n) cs =
     (if list_all isDigit cs then Some (int (foldl (\<lambda>n c. n * 10 + digit_val c) n cs)) else None)"
proof (induction cs arbitrary: n)
  case Nil
  show ?case by simp
next
  case (Cons c cs)
  have "int n * 10 + int (digit_val c) = int (n * 10 + digit_val c)" by simp
  then show ?case
    using Cons.IH [of "n * 10 + digit_val c"] by simp
qed

lemma Atoi_value:
  "fst (Atoi s) =
     (let ds = unsigned_part s; run = takeWhile isDigit ds; n = int (decimal run)
      in if ds = [] \<or> (run \<noteq> ds \<and> n < 2 ^ 64) then 0
         else if negative s then max (- (2 ^ 63)) (- n)
         else min (2 ^ 63 - 1) n)"
proof (cases "0 < length s \<and> length s < 19")
  case False
  show ?thesis
  proof (cases "s = []")
    case True
    then show ?thesis by (simp add: Atoi_def ParseInt_def unsigned_part_def)
  next
    case ne: False
    with False have "Atoi s = ParseInt s" by (simp add: Atoi_def)
    then show ?thesis
      using ne
      by (auto simp: ParseInt_def ParseUint_value Let_def unsigned_part_def negative_def
          maxUint64_def)
  qed
next
  case True
  let ?ds = "unsigned_part s"
  let ?run = "takeWhile isDigit ?ds"
  from True have ne: "s \<noteq> []" by auto
  have "length ?run \<le> length ?ds" by (rule length_takeWhile_le)
  also have "\<dots> \<le> 18" using True by (auto simp: unsigned_part_def)
  finally have len: "length ?run \<le> 18" .
  have "list_all isDigit ?run"
    by (simp add: list_all_iff) (meson set_takeWhileD)
  then have "decimal ?run < 10 ^ length ?run" by (rule decimal_less)
  also have "(10::nat) ^ length ?run \<le> 10 ^ 18"
    using len by (intro power_increasing) simp_all
  finally have small: "decimal ?run < 10 ^ 18" .
  then have b: "int (decimal ?run) < 2 ^ 63" "int (decimal ?run) < 2 ^ 64" by simp_all
  have fast: "fast_digits 0 ?ds =
      (if ?run = ?ds then Some (int (decimal ?run)) else None)"
  proof (cases "list_all isDigit ?ds")
    case True
    then have run: "?run = ?ds" by (simp add: list_all_iff)
    from True have "fast_digits 0 ?ds = Some (int (decimal ?ds))"
      using fast_digits_value [of 0 ?ds] by (simp add: decimal_def)
    then show ?thesis
      unfolding run by simp
  next
    case False
    then have "?run \<noteq> ?ds" by (simp add: list_all_iff)
    with False show ?thesis
      using fast_digits_value [of 0 ?ds] by simp
  qed
  show ?thesis
  proof (cases "?ds = []")
    case True
    with ne \<open>0 < length s \<and> length s < 19\<close> show ?thesis
      by (auto simp: Atoi_def Let_def unsigned_part_def split: if_splits)
  next
    case False
    have "Atoi s =
        (case fast_digits 0 ?ds of None \<Rightarrow> (0, Some ErrSyntax)
         | Some n \<Rightarrow> (if hd s = CHR ''-'' then - n else n, None))"
      using True ne False by (auto simp: Atoi_def Let_def unsigned_part_def)
    with False b ne show ?thesis
      by (auto simp: fast Let_def negative_def)
  qed
qed

text \<open>
  What \<^verbatim>\<open>Atoi\<close> returns, by the kind of text: an integer text reads as its number
  brought into the range of \<^verbatim>\<open>int64\<close>; a text that is not an integer reads as 0,
  unless its leading digits pass \<^verbatim>\<open>maxUint64\<close>, when it reads as the bound of
  \<^verbatim>\<open>int64\<close> on the side of its sign.
\<close>

lemma Atoi_integer:
  assumes "integer_text s"
  shows "fst (Atoi s) = max (- (2 ^ 63)) (min (2 ^ 63 - 1) (integer_value s))"
proof -
  from assms have run: "takeWhile isDigit (unsigned_part s) = unsigned_part s"
    and ne: "unsigned_part s \<noteq> []"
    by (simp_all add: integer_text_def list_all_iff)
  show ?thesis
    unfolding Atoi_value Let_def run by (simp add: ne integer_value_def)
qed

lemma Atoi_not_integer:
  assumes "\<not> integer_text s"
  shows "fst (Atoi s) =
           (if digits_overflow s then (if negative s then - (2 ^ 63) else 2 ^ 63 - 1) else 0)"
proof (cases "unsigned_part s = []")
  case True
  then show ?thesis
    by (simp add: Atoi_value digits_overflow_def decimal_def)
next
  case False
  with assms have "takeWhile isDigit (unsigned_part s) \<noteq> unsigned_part s"
    by (simp add: integer_text_def list_all_iff)
  with False show ?thesis
    by (auto simp: Atoi_value digits_overflow_def Let_def)
qed

subsection \<open>Mutations\<close>

lemmas mutation_defs =
  CreateVLAN_def UpdateVLAN_def DeleteVLAN_def CreateUser_def UpdateUser_def DeleteUser_def
  BlockUser_def UnblockUser_def

text \<open>The empty registry is well formed and every mutation, failed or not, keeps it so.\<close>

lemma wf_db_New: "wf_db NewMemoryDatabase"
  by (simp add: wf_db_def NewMemoryDatabase_def)

lemma wf_db_kept:
  assumes "wf_db d"
  shows "wf_db (fst (CreateVLAN d v))" and "wf_db (fst (UpdateVLAN d v))"
    and "wf_db (fst (DeleteVLAN d i))" and "wf_db (fst (CreateUser d u))"
    and "wf_db (fst (UpdateUser d u))" and "wf_db (fst (DeleteUser d n))"
    and "wf_db (fst (BlockUser d n))" and "wf_db (fst (UnblockUser listed d n))"
  using assms
  by (auto simp: wf_db_def mutation_defs GetVLAN_def GetDefaultVLAN_def Let_def
      split: if_splits sum.splits list.splits option.splits)

subsection \<open>The default VLAN\<close>

text \<open>
  Claim C3, on the code as it is.  After \<open>createVLAN\<close> of a default VLAN 1,
  \<open>createVLAN\<close> of a VLAN 20 and \<open>updateVLAN\<close> of VLAN 20 with \<open>default = true\<close>,
  all three calls succeeding on an initially empty registry, two VLANs of the registry
  have \<open>default = true\<close>: \<open>UpdateVLAN\<close> lacks the check that \<open>CreateVLAN\<close> makes.
\<close>

theorem UpdateVLAN_second_default:
  "\<not> V1 (run_vlan_ops NewMemoryDatabase
           [OpCreateVLAN vlan1, OpCreateVLAN vlan20, OpUpdateVLAN (vlan20\<lparr>Default := True\<rparr>)])"
  unfolding V1_def
  by (simp, intro exI [of _ "''1''"] exI [of _ "''20''"] exI [of _ vlan1]
        exI [of _ "vlan20\<lparr>Default := True\<rparr>"])
     (simp add: CreateVLAN_def UpdateVLAN_def NewMemoryDatabase_def vlan1_def vlan20_def)

lemma UpdateVLAN_second_default_calls_succeed:
  "snd (CreateVLAN NewMemoryDatabase vlan1) = None \<and>
   snd (CreateVLAN (fst (CreateVLAN NewMemoryDatabase vlan1)) vlan20) = None \<and>
   snd (UpdateVLAN (fst (CreateVLAN (fst (CreateVLAN NewMemoryDatabase vlan1)) vlan20))
          (vlan20\<lparr>Default := True\<rparr>)) = None"
  by (simp add: CreateVLAN_def UpdateVLAN_def NewMemoryDatabase_def vlan1_def vlan20_def)

text \<open>
  Claim C10.  A successful \<open>updateVLAN\<close> or \<open>deleteVLAN\<close> leaves the result of
  \<open>getDefaultVLAN\<close> as it was, also when the VLAN updated or deleted is the default.
\<close>

theorem default_vlan_frame:
  "(snd (UpdateVLAN d v) = None \<longrightarrow>
      GetDefaultVLAN (fst (UpdateVLAN d v)) = GetDefaultVLAN d) \<and>
   (snd (DeleteVLAN d i) = None \<longrightarrow>
      GetDefaultVLAN (fst (DeleteVLAN d i)) = GetDefaultVLAN d)"
proof -
  have "defaultVLAN (fst (UpdateVLAN d v)) = defaultVLAN d"
    by (simp add: UpdateVLAN_def)
  moreover have "defaultVLAN (fst (DeleteVLAN d i)) = defaultVLAN d"
    by (simp add: DeleteVLAN_def)
  ultimately show ?thesis
    by (simp add: GetDefaultVLAN_def)
qed

theorem default_vlan_frame_witness:
  "snd (UpdateVLAN S1_registry (vlan1\<lparr>Name := ''Guests'', Default := False\<rparr>)) = None \<and>
   GetDefaultVLAN (fst (UpdateVLAN S1_registry (vlan1\<lparr>Name := ''Guests'', Default := False\<rparr>)))
     = Inr vlan1 \<and>
   snd (DeleteVLAN S1_registry ''1'') = None \<and>
   GetVLAN (fst (DeleteVLAN S1_registry ''1'')) ''1'' = Inl ErrVLANNotFound \<and>
   GetDefaultVLAN (fst (DeleteVLAN S1_registry ''1'')) = Inr vlan1"
  using default_vlan_frame [of S1_registry "vlan1\<lparr>Name := ''Guests'', Default := False\<rparr>" "''1''"]
  by (simp add: UpdateVLAN_def DeleteVLAN_def GetDefaultVLAN_def GetVLAN_def S1_registry_def
      vlan1_def)

subsection \<open>Failed mutations\<close>

text \<open>
  Seven of the eight mutations check before they write: when they return an error the
  registry is what it was.  \<open>UnblockUser\<close> does so only for its first error.
\<close>

lemma failed_mutation_unchanged:
  "snd (CreateVLAN d v) \<noteq> None \<Longrightarrow> fst (CreateVLAN d v) = d"
  "snd (UpdateVLAN d v) \<noteq> None \<Longrightarrow> fst (UpdateVLAN d v) = d"
  "snd (DeleteVLAN d i) \<noteq> None \<Longrightarrow> fst (DeleteVLAN d i) = d"
  "snd (CreateUser d u) \<noteq> None \<Longrightarrow> fst (CreateUser d u) = d"
  "snd (UpdateUser d u) \<noteq> None \<Longrightarrow> fst (UpdateUser d u) = d"
  "snd (DeleteUser d n) \<noteq> None \<Longrightarrow> fst (DeleteUser d n) = d"
  "snd (BlockUser d n) \<noteq> None \<Longrightarrow> fst (BlockUser d n) = d"
  "snd (UnblockUser listed d n) = Some ErrBlockedUserNotFound \<Longrightarrow>
     fst (UnblockUser listed d n) = d"
  by (auto simp: mutation_defs GetVLAN_def GetDefaultVLAN_def Let_def
      split: if_splits option.splits sum.splits list.splits)

text \<open>
  Claim C4, on the code as it is.  In a registry with no VLAN and no default VLAN where
  \<open>mac1\<close> is blocked and has no device, \<open>unblock mac1\<close> returns the error
  \<open>ErrVLANNotFound\<close> and leaves a registry in which \<open>mac1\<close> is no longer blocked: the
  blocklist entry is deleted before the VLAN is looked for.
\<close>

theorem UnblockUser_fails_after_delete:
  "IsUserBlocked blocked_empty mac1 = Inr True \<and>
   iteration_of (vlans blocked_empty) [] \<and>
   GetVLANs [] blocked_empty = [] \<and>
   snd (UnblockUser [] blocked_empty mac1) = Some ErrVLANNotFound \<and>
   IsUserBlocked (fst (UnblockUser [] blocked_empty mac1)) mac1 = Inr False \<and>
   fst (UnblockUser [] blocked_empty mac1) = NewMemoryDatabase"
  by (simp add: blocked_empty_def BlockUser_def UnblockUser_def NewMemoryDatabase_def
      GetDefaultVLAN_def IsUserBlocked_def iteration_of_def GetVLANs_def listing_eval Let_def)

subsection \<open>Unblocking a user that has no device\<close>

text \<open>
  In a registry whose default-VLAN pointer agrees with the flags, \<open>unblock\<close> does what
  the specification says.  Let \<open>u\<close> be blocked and have no device.  When \<open>unblock u\<close>
  succeeds, \<open>getDevice u\<close> returns a device on the VLAN flagged default when there is
  one, and in every case on a VLAN of the registry; \<open>unblock u\<close> fails when the registry
  holds no VLAN.
\<close>

lemma UnblockUser_creates_device:
  assumes agrees: "default_agrees d"
    and blocked: "blockedUsers d u \<noteq> None" and unknown: "users d u = None"
    and order: "iteration_of (vlans d) ks"
  shows
    "(snd (UnblockUser (GetVLANs ks d) d u) = None \<longrightarrow>
        (\<exists>dev. GetUser (fst (UnblockUser (GetVLANs ks d) d u)) u = Inr dev \<and>
           (\<exists>i v. vlans d i = Some v \<and> VlanID dev = ID v) \<and>
           (\<forall>w. (\<exists>j. vlans d j = Some w \<and> Default w) \<longrightarrow> VlanID dev = ID w))) \<and>
     (vlans d = Map.empty \<longrightarrow>
        snd (UnblockUser (GetVLANs ks d) d u) = Some ErrVLANNotFound)"
proof (intro conjI impI)
  assume ok: "snd (UnblockUser (GetVLANs ks d) d u) = None"
  show "\<exists>dev. GetUser (fst (UnblockUser (GetVLANs ks d) d u)) u = Inr dev \<and>
           (\<exists>i v. vlans d i = Some v \<and> VlanID dev = ID v) \<and>
           (\<forall>w. (\<exists>j. vlans d j = Some w \<and> Default w) \<longrightarrow> VlanID dev = ID w)"
  proof (cases "defaultVLAN d")
    case (Some dflt)
    with agrees obtain i where stored: "vlans d i = Some dflt" "Default dflt"
      by (auto simp: default_agrees_def)
    have only: "w = dflt" if "vlans d j = Some w" "Default w" for w j
    proof -
      from that agrees have "defaultVLAN d = Some w"
        by (auto simp: default_agrees_def)
      with Some show ?thesis by simp
    qed
    let ?dev = "\<lparr>User.Username = u, Password = u, VlanID = ID dflt, Description = []\<rparr>"
    from Some blocked unknown
    have dev: "GetUser (fst (UnblockUser (GetVLANs ks d) d u)) u = Inr ?dev"
      by (simp add: UnblockUser_def GetDefaultVLAN_def GetUser_def Let_def)
    have present: "\<exists>i v. vlans d i = Some v \<and> VlanID ?dev = ID v"
      using stored(1) by (intro exI [of _ i] exI [of _ dflt]) simp
    have flagged: "\<forall>w. (\<exists>j. vlans d j = Some w \<and> Default w) \<longrightarrow> VlanID ?dev = ID w"
    proof (intro allI impI)
      fix w assume "\<exists>j. vlans d j = Some w \<and> Default w"
      then obtain j where "vlans d j = Some w" "Default w" by blast
      then have "w = dflt" by (rule only)
      then show "VlanID ?dev = ID w" by simp
    qed
    from dev present flagged show ?thesis
      by (intro exI [of _ ?dev] conjI)
  next
    case None
    with agrees have no_flag: "\<not> (\<exists>j. vlans d j = Some w \<and> Default w)" for w
      by (auto simp: default_agrees_def)
    from None ok blocked unknown obtain v rest where listed: "GetVLANs ks d = v # rest"
      by (cases "GetVLANs ks d") (auto simp: UnblockUser_def GetDefaultVLAN_def Let_def)
    have "mset (GetVLANs ks d) = map_values (vlans d)"
      unfolding GetVLANs_def using order by (rule listing_mset)
    with listed have "v \<in># map_values (vlans d)"
      by (metis list.set_intros(1) set_mset_mset)
    then obtain i where stored: "vlans d i = Some v"
      by (auto dest: in_map_values)
    let ?dev = "\<lparr>User.Username = u, Password = u, VlanID = ID v, Description = []\<rparr>"
    from None listed blocked unknown
    have dev: "GetUser (fst (UnblockUser (GetVLANs ks d) d u)) u = Inr ?dev"
      by (simp add: UnblockUser_def GetDefaultVLAN_def GetUser_def Let_def)
    have present: "\<exists>i w. vlans d i = Some w \<and> VlanID ?dev = ID w"
      using stored by (intro exI [of _ i] exI [of _ v]) simp
    have flagged: "\<forall>w. (\<exists>j. vlans d j = Some w \<and> Default w) \<longrightarrow> VlanID ?dev = ID w"
      using no_flag by blast
    from dev present flagged show ?thesis
      by (intro exI [of _ ?dev] conjI)
  qed
next
  assume empty: "vlans d = Map.empty"
  with agrees have none: "defaultVLAN d = None"
    by (cases "defaultVLAN d") (auto simp: default_agrees_def)
  have "mset (GetVLANs ks d) = map_values (vlans d)"
    unfolding GetVLANs_def using order by (rule listing_mset)
  with empty have "GetVLANs ks d = []"
    by (simp add: map_values_empty)
  with none blocked unknown show "snd (UnblockUser (GetVLANs ks d) d u) = Some ErrVLANNotFound"
    by (simp add: UnblockUser_def GetDefaultVLAN_def Let_def)
qed

text \<open>
  Claim C5, on the code as it is.  On an empty registry, \<open>createVLAN\<close> of the default
  VLAN 1, \<open>deleteVLAN\<close> of it and \<open>block mac1\<close> all succeed and leave a registry that holds
  no VLAN, in which \<open>mac1\<close> is blocked and has no device.  There \<open>unblock mac1\<close> does not
  fail: \<open>DeleteVLAN\<close> has left the default-VLAN pointer on the deleted VLAN, so
  \<open>UnblockUser\<close> never comes to list the VLANs and creates a device on VLAN 1, which
  \<open>getVLAN\<close> does not find and on which \<open>createDevice\<close> refuses to create that device.
\<close>

theorem UnblockUser_succeeds_without_vlans:
  "snd (CreateVLAN NewMemoryDatabase vlan1) = None \<and>
   snd (DeleteVLAN (fst (CreateVLAN NewMemoryDatabase vlan1)) ''1'') = None \<and>
   snd (BlockUser (fst (DeleteVLAN (fst (CreateVLAN NewMemoryDatabase vlan1)) ''1'')) mac1) = None \<and>
   stale_default =
     fst (BlockUser (fst (DeleteVLAN (fst (CreateVLAN NewMemoryDatabase vlan1)) ''1'')) mac1) \<and>
   vlans stale_default = Map.empty \<and>
   iteration_of (vlans stale_default) [] \<and>
   GetVLANs [] stale_default = [] \<and>
   IsUserBlocked stale_default mac1 = Inr True \<and>
   GetUser stale_default mac1 = Inl ErrUserNotFound \<and>
   snd (UnblockUser (GetVLANs [] stale_default) stale_default mac1) = None \<and>
   GetUser (fst (UnblockUser (GetVLANs [] stale_default) stale_default mac1)) mac1 =
     Inr \<lparr>User.Username = mac1, Password = mac1, VlanID = ''1'', Description = []\<rparr> \<and>
   GetVLAN (fst (UnblockUser (GetVLANs [] stale_default) stale_default mac1)) ''1'' =
     Inl ErrVLANNotFound \<and>
   snd (CreateUser stale_default
          \<lparr>User.Username = mac1, Password = mac1, VlanID = ''1'', Description = []\<rparr>) =
     Some ErrVLANNotFound"
proof -
  have state: "stale_default =
      \<lparr>users = Map.empty, vlans = Map.empty,
       blockedUsers = [mac1 \<mapsto> \<lparr>BlockedUser.Username = mac1\<rparr>], defaultVLAN = Some vlan1\<rparr>"
    by (simp add: stale_default_def CreateVLAN_def DeleteVLAN_def BlockUser_def
        NewMemoryDatabase_def vlan1_def)
  have calls: "snd (CreateVLAN NewMemoryDatabase vlan1) = None \<and>
      snd (DeleteVLAN (fst (CreateVLAN NewMemoryDatabase vlan1)) ''1'') = None \<and>
      snd (BlockUser (fst (DeleteVLAN (fst (CreateVLAN NewMemoryDatabase vlan1)) ''1'')) mac1) = None \<and>
      stale_default =
        fst (BlockUser (fst (DeleteVLAN (fst (CreateVLAN NewMemoryDatabase vlan1)) ''1'')) mac1)"
    by (simp add: stale_default_def CreateVLAN_def DeleteVLAN_def BlockUser_def
        NewMemoryDatabase_def vlan1_def)
  have listed: "GetVLANs [] stale_default = []"
    by (simp add: GetVLANs_def listing_eval)
  have rest: "vlans stale_default = Map.empty \<and>
      iteration_of (vlans stale_default) [] \<and>
      GetVLANs [] stale_default = [] \<and>
      IsUserBlocked stale_default mac1 = Inr True \<and>
      GetUser stale_default mac1 = Inl ErrUserNotFound \<and>
      snd (UnblockUser (GetVLANs [] stale_default) stale_default mac1) = None \<and>
      GetUser (fst (UnblockUser (GetVLANs [] stale_default) stale_default mac1)) mac1 =
        Inr \<lparr>User.Username = mac1, Password = mac1, VlanID = ''1'', Description = []\<rparr> \<and>
      GetVLAN (fst (UnblockUser (GetVLANs [] stale_default) stale_default mac1)) ''1'' =
        Inl ErrVLANNotFound \<and>
      snd (CreateUser stale_default
             \<lparr>User.Username = mac1, Password = mac1, VlanID = ''1'', Description = []\<rparr>) =
        Some ErrVLANNotFound"
    unfolding listed unfolding state
    by (simp add: UnblockUser_def GetDefaultVLAN_def GetUser_def GetVLAN_def IsUserBlocked_def
        CreateUser_def iteration_of_def GetVLANs_def listing_eval Let_def vlan1_def)
  from calls rest show ?thesis
    by (elim conjE) (intro conjI)
qed

section \<open>Properties of the YAML file\<close>

subsection \<open>The codec\<close>

text \<open>Decoding what was encoded gives the struct back.\<close>

lemma decode_encode_VLAN: "decode_VLAN (encode_VLAN v) = v"
  by (simp add: decode_VLAN_def encode_VLAN_def omitempty_def or_zero_def)

lemma decode_encode_User: "decode_User (encode_User u) = u"
  by (simp add: decode_User_def encode_User_def omitempty_def or_zero_def)

lemma decode_encode_BlockedUser: "decode_BlockedUser (encode_BlockedUser b) = b"
  by (simp add: decode_BlockedUser_def encode_BlockedUser_def or_zero_def)

lemma Decode_Encode: "Decode (Encode yf) = yf"
  by (simp add: Decode_def Encode_def or_zero_def comp_def decode_encode_VLAN
      decode_encode_User decode_encode_BlockedUser)

lemma load_dumped:
  "IsAbs p \<Longrightarrow> loadFile (fst (dumpFile NoFault yf fs p)) p = load_yamlFile yf"
  by (simp add: dumpFile_def loadFile_def Decode_Encode)

subsection \<open>Example registries\<close>

lemma flag_by_update_state:
  "flag_by_update = \<lparr>users = Map.empty, vlans = [''20'' \<mapsto> vlan20\<lparr>Default := True\<rparr>],
                     blockedUsers = Map.empty, defaultVLAN = None\<rparr>"
  by (simp add: flag_by_update_def CreateVLAN_def UpdateVLAN_def NewMemoryDatabase_def vlan20_def)

lemma named_vlans_state:
  "named_vlans = \<lparr>users = Map.empty, vlans = [''guest'' \<mapsto> vlan_guest, ''iot'' \<mapsto> vlan_iot],
                  blockedUsers = Map.empty, defaultVLAN = None\<rparr>"
  by (simp add: named_vlans_def CreateVLAN_def NewMemoryDatabase_def vlan_guest_def vlan_iot_def)


subsection \<open>The loops of \<open>loadFile\<close>\<close>

lemma find_SomeD: "find P xs = Some x \<Longrightarrow> x \<in> set xs \<and> P x"
  by (induction xs) (auto split: if_splits)

lemma upd_add_fresh:
  assumes "\<forall>w\<in>set xs. key w \<noteq> k"
  shows "m(k \<mapsto> v) ++ map_of (map (\<lambda>x. (key x, f x)) xs) =
         (m ++ map_of (map (\<lambda>x. (key x, f x)) xs))(k \<mapsto> v)"
proof (rule map_add_upd_left)
  show "k \<notin> dom (map_of (map (\<lambda>x. (key x, f x)) xs))"
    using assms by (auto simp: dom_map_of_conv_image_fst)
qed

lemma for_each_CreateVLAN:
  assumes "distinct (map ID vs)"
    and "\<forall>v\<in>set vs. vlans d (ID v) = None"
    and "\<forall>v\<in>set vs. \<forall>w\<in>set vs. Default v \<and> Default w \<longrightarrow> v = w"
    and "defaultVLAN d \<noteq> None \<longrightarrow> (\<forall>v\<in>set vs. \<not> Default v)"
  shows "for_each CreateVLAN d vs =
           Inr (d\<lparr>vlans := vlans d ++ map_of (map (\<lambda>v. (ID v, v)) vs),
                  defaultVLAN := (case find Default vs of
                                    Some v \<Rightarrow> Some v | None \<Rightarrow> defaultVLAN d)\<rparr>)"
  using assms
proof (induction vs arbitrary: d)
  case Nil
  then show ?case by simp
next
  case (Cons v vs)
  define M where "M = map_of (map (\<lambda>v. (ID v, v)) vs)"
  define d' where "d' = d\<lparr>vlans := (vlans d)(ID v \<mapsto> v),
                          defaultVLAN := (if Default v then Some v else defaultVLAN d)\<rparr>"
  have step: "CreateVLAN d v = (d', None)"
    using Cons.prems by (auto simp: CreateVLAN_def d'_def)
  have fresh: "\<forall>w\<in>set vs. ID w \<noteq> ID v"
    using Cons.prems(1) by (force simp: image_iff)
  have later: "\<not> Default w" if "Default v" and "w \<in> set vs" for w
  proof
    assume "Default w"
    with that Cons.prems(3) have "w = v" by auto
    with that fresh show False by auto
  qed
  have "for_each CreateVLAN d' vs =
      Inr (d'\<lparr>vlans := vlans d' ++ M,
              defaultVLAN := (case find Default vs of
                                Some w \<Rightarrow> Some w | None \<Rightarrow> defaultVLAN d')\<rparr>)"
    unfolding M_def
  proof (rule Cons.IH)
    show "distinct (map ID vs)" using Cons.prems(1) by simp
    show "\<forall>w\<in>set vs. vlans d' (ID w) = None"
      using Cons.prems(2) fresh by (auto simp: d'_def)
    show "\<forall>a\<in>set vs. \<forall>b\<in>set vs. Default a \<and> Default b \<longrightarrow> a = b"
      using Cons.prems(3) by simp
    show "defaultVLAN d' \<noteq> None \<longrightarrow> (\<forall>w\<in>set vs. \<not> Default w)"
      using later Cons.prems(4) by (auto simp: d'_def)
  qed
  then have run: "for_each CreateVLAN d (v # vs) =
      Inr (d\<lparr>vlans := (vlans d)(ID v \<mapsto> v) ++ M,
             defaultVLAN := (case find Default vs of
                               Some w \<Rightarrow> Some w
                             | None \<Rightarrow> if Default v then Some v else defaultVLAN d)\<rparr>)"
    by (simp add: step d'_def cong: option.case_cong)
  have dflt: "(case find Default vs of
                 Some w \<Rightarrow> Some w
               | None \<Rightarrow> if Default v then Some v else defaultVLAN d) =
              (case find Default (v # vs) of Some w \<Rightarrow> Some w | None \<Rightarrow> defaultVLAN d)"
    using later by (auto simp: find_None_iff dest: find_SomeD split: option.splits)
  have "(vlans d)(ID v \<mapsto> v) ++ M = (vlans d ++ M)(ID v \<mapsto> v)"
    unfolding M_def using fresh by (rule upd_add_fresh)
  also have "\<dots> = vlans d ++ map_of (map (\<lambda>v. (ID v, v)) (v # vs))"
    by (simp add: M_def)
  finally show ?case
    by (simp only: run dflt)
qed

lemma for_each_CreateUser:
  assumes "distinct (map User.Username us)"
    and "\<forall>u\<in>set us. users d (User.Username u) = None"
    and "\<forall>u\<in>set us. vlans d (VlanID u) \<noteq> None"
  shows "for_each CreateUser d us =
           Inr (d\<lparr>users := users d ++ map_of (map (\<lambda>u. (User.Username u, u)) us)\<rparr>)"
  using assms
proof (induction us arbitrary: d)
  case Nil
  then show ?case by simp
next
  case (Cons u us)
  define M where "M = map_of (map (\<lambda>u. (User.Username u, u)) us)"
  have step: "CreateUser d u = (d\<lparr>users := (users d)(User.Username u \<mapsto> u)\<rparr>, None)"
    using Cons.prems by (auto simp: CreateUser_def GetVLAN_def)
  have fresh: "\<forall>w\<in>set us. User.Username w \<noteq> User.Username u"
    using Cons.prems(1) by (force simp: image_iff)
  have "for_each CreateUser (fst (CreateUser d u)) us =
      Inr ((fst (CreateUser d u))\<lparr>users := users (fst (CreateUser d u)) ++ M\<rparr>)"
    unfolding M_def using Cons.prems fresh by (intro Cons.IH) (auto simp: step)
  then have run: "for_each CreateUser d (u # us) =
      Inr (d\<lparr>users := (users d)(User.Username u \<mapsto> u) ++ M\<rparr>)"
    by (simp add: step)
  have "(users d)(User.Username u \<mapsto> u) ++ M = (users d ++ M)(User.Username u \<mapsto> u)"
    unfolding M_def using fresh by (rule upd_add_fresh)
  also have "\<dots> = users d ++ map_of (map (\<lambda>u. (User.Username u, u)) (u # us))"
    by (simp add: M_def)
  finally show ?case
    by (simp only: run)
qed

lemma for_each_BlockUser:
  assumes "distinct (map BlockedUser.Username bs)"
    and "\<forall>b\<in>set bs. blockedUsers d (BlockedUser.Username b) = None"
  shows "for_each (\<lambda>d bu. BlockUser d (BlockedUser.Username bu)) d bs =
           Inr (d\<lparr>blockedUsers := blockedUsers d ++
                  map_of (map (\<lambda>b. (BlockedUser.Username b,
                                      \<lparr>BlockedUser.Username = BlockedUser.Username b\<rparr>)) bs)\<rparr>)"
  using assms
proof (induction bs arbitrary: d)
  case Nil
  then show ?case by simp
next
  case (Cons b bs)
  let ?f = "\<lambda>d bu. BlockUser d (BlockedUser.Username bu)"
  let ?kv = "\<lambda>b. (BlockedUser.Username b, \<lparr>BlockedUser.Username = BlockedUser.Username b\<rparr>)"
  let ?k = "BlockedUser.Username b"
  define M where "M = map_of (map ?kv bs)"
  have step: "BlockUser d ?k =
      (d\<lparr>blockedUsers := (blockedUsers d)(?k \<mapsto> \<lparr>BlockedUser.Username = ?k\<rparr>)\<rparr>, None)"
    using Cons.prems by (auto simp: BlockUser_def)
  have fresh: "\<forall>w\<in>set bs. BlockedUser.Username w \<noteq> ?k"
    using Cons.prems(1) by (force simp: image_iff)
  have "for_each ?f (fst (?f d b)) bs =
      Inr ((fst (?f d b))\<lparr>blockedUsers := blockedUsers (fst (?f d b)) ++ M\<rparr>)"
    unfolding M_def using Cons.prems fresh by (intro Cons.IH) (auto simp: step)
  then have run: "for_each ?f d (b # bs) =
      Inr (d\<lparr>blockedUsers := (blockedUsers d)(?k \<mapsto> \<lparr>BlockedUser.Username = ?k\<rparr>) ++ M\<rparr>)"
    by (simp add: step)
  have "(blockedUsers d)(?k \<mapsto> \<lparr>BlockedUser.Username = ?k\<rparr>) ++ M =
        (blockedUsers d ++ M)(?k \<mapsto> \<lparr>BlockedUser.Username = ?k\<rparr>)"
    unfolding M_def using fresh by (rule upd_add_fresh)
  also have "\<dots> = blockedUsers d ++ map_of (map ?kv (b # bs))"
    by (simp add: M_def)
  finally show ?case
    by (simp only: run)
qed

text \<open>A listing of a finite map whose entries sit under their own keys.\<close>

lemma listing_keys:
  assumes "mset xs = map_values m" and "finite (dom m)"
    and "\<forall>k x. m k = Some x \<longrightarrow> key x = k"
  shows "distinct (map key xs)" and "set xs = ran m"
    and "map_of (map (\<lambda>x. (key x, x)) xs) = m"
proof -
  have "mset (map key xs) = image_mset key (map_values m)"
    using assms(1) by (metis mset_map)
  also have "\<dots> = image_mset (\<lambda>k. key (the (m k))) (mset_set (dom m))"
    by (simp add: map_values_def image_mset.compositionality comp_def)
  also have "\<dots> = image_mset (\<lambda>k. k) (mset_set (dom m))"
    using assms(3) by (intro image_mset_cong) (auto simp: assms(2))
  finally have keys: "mset (map key xs) = mset_set (dom m)" by simp
  have "count (mset (map key xs)) k \<le> 1" for k
    unfolding keys using assms(2) by (simp add: count_mset_set')
  then show dist: "distinct (map key xs)"
    unfolding distinct_count_atmost_1 by (metis count_mset_0_iff set_mset_mset le_antisym One_nat_def not_less_eq_eq le0 count_greater_zero_iff Suc_leI)
  show ran: "set xs = ran m"
    using assms(1,2) by (metis set_map_values set_mset_mset)
  show "map_of (map (\<lambda>x. (key x, x)) xs) = m"
  proof (rule ext)
    fix k
    show "map_of (map (\<lambda>x. (key x, x)) xs) k = m k"
    proof (cases "m k")
      case None
      have "k \<notin> key ` set xs"
      proof
        assume "k \<in> key ` set xs"
        then obtain x where "x \<in> ran m" "key x = k" using ran by auto
        with assms(3) have "m k = Some x" by (auto simp: ran_def)
        with None show False by simp
      qed
      then have "map_of (map (\<lambda>x. (key x, x)) xs) k = None"
        by (simp add: map_of_eq_None_iff image_image)
      with None show ?thesis by simp
    next
      case (Some x)
      then have "x \<in> set xs" and "key x = k" using ran assms(3) by (auto simp: ran_def)
      then have "(k, x) \<in> set (map (\<lambda>x. (key x, x)) xs)" by auto
      moreover have "distinct (map fst (map (\<lambda>x. (key x, x)) xs))"
        using dist by (simp add: comp_def)
      ultimately have "map_of (map (\<lambda>x. (key x, x)) xs) k = Some x"
        by (rule map_of_is_SomeI [rotated])
      with Some show ?thesis by simp
    qed
  qed
qed

lemma load_vlans:
  assumes "distinct (map ID vs)"
    and "map_of (map (\<lambda>v. (ID v, v)) vs) = m"
    and "\<forall>v\<in>set vs. \<forall>w\<in>set vs. Default v \<and> Default w \<longrightarrow> v = w"
  shows "for_each CreateVLAN NewMemoryDatabase vs =
      Inr (NewMemoryDatabase\<lparr>vlans := m, defaultVLAN := find Default vs\<rparr>)"
proof -
  have "for_each CreateVLAN NewMemoryDatabase vs =
      Inr (NewMemoryDatabase\<lparr>vlans := vlans NewMemoryDatabase ++ map_of (map (\<lambda>v. (ID v, v)) vs),
             defaultVLAN := (case find Default vs of
                               Some v \<Rightarrow> Some v | None \<Rightarrow> defaultVLAN NewMemoryDatabase)\<rparr>)"
    using assms(1,3) by (intro for_each_CreateVLAN) (simp_all add: NewMemoryDatabase_def)
  moreover have "vlans NewMemoryDatabase ++ map_of (map (\<lambda>v. (ID v, v)) vs) = m"
    by (simp add: NewMemoryDatabase_def assms(2))
  moreover have "(case find Default vs of
                    Some v \<Rightarrow> Some v | None \<Rightarrow> defaultVLAN NewMemoryDatabase) = find Default vs"
    by (cases "find Default vs") (simp_all add: NewMemoryDatabase_def)
  ultimately show ?thesis by (simp only:)
qed

lemma load_users:
  assumes "distinct (map User.Username us)"
    and "map_of (map (\<lambda>u. (User.Username u, u)) us) = m"
    and "\<forall>u\<in>set us. vlans d (VlanID u) \<noteq> None"
    and "users d = Map.empty"
  shows "for_each CreateUser d us = Inr (d\<lparr>users := m\<rparr>)"
proof -
  have "for_each CreateUser d us =
      Inr (d\<lparr>users := users d ++ map_of (map (\<lambda>u. (User.Username u, u)) us)\<rparr>)"
    using assms(1,3,4) by (intro for_each_CreateUser) simp_all
  moreover have "users d ++ map_of (map (\<lambda>u. (User.Username u, u)) us) = m"
    by (simp add: assms(2,4))
  ultimately show ?thesis by (simp only:)
qed

lemma load_blocked:
  assumes "distinct (map BlockedUser.Username bs)"
    and "map_of (map (\<lambda>b. (BlockedUser.Username b, b)) bs) = m"
    and "blockedUsers d = Map.empty"
  shows "for_each (\<lambda>d bu. BlockUser d (BlockedUser.Username bu)) d (bs :: BlockedUser list) =
           Inr (d\<lparr>blockedUsers := m\<rparr>)"
proof -
  have same: "map (\<lambda>b. (BlockedUser.Username b, \<lparr>BlockedUser.Username = BlockedUser.Username b\<rparr>)) bs =
              map (\<lambda>b. (BlockedUser.Username b, b)) bs"
    by (rule map_cong) simp_all
  have "for_each (\<lambda>d bu. BlockUser d (BlockedUser.Username bu)) d bs =
      Inr (d\<lparr>blockedUsers := blockedUsers d ++
             map_of (map (\<lambda>b. (BlockedUser.Username b,
                                \<lparr>BlockedUser.Username = BlockedUser.Username b\<rparr>)) bs)\<rparr>)"
    using assms(1,3) by (intro for_each_BlockUser) simp_all
  moreover have "blockedUsers d ++
             map_of (map (\<lambda>b. (BlockedUser.Username b,
                                \<lparr>BlockedUser.Username = BlockedUser.Username b\<rparr>)) bs) = m"
    unfolding same by (simp add: assms(2,3))
  ultimately show ?thesis by (simp only:)
qed

lemma V1_D:
  assumes "V1 d" and "vlans d i = Some v" and "Default v" and "vlans d j = Some w" and "Default w"
  shows "i = j"
proof (rule ccontr)
  assume "i \<noteq> j"
  with assms(2-5) have "\<exists>i j v w. i \<noteq> j \<and> vlans d i = Some v \<and> Default v \<and>
      vlans d j = Some w \<and> Default w"
    by blast
  with assms(1) show False
    unfolding V1_def by (rule notE)
qed

lemma agrees_D:
  assumes "default_agrees d"
  shows "(defaultVLAN d = Some v) = (\<exists>i. vlans d i = Some v \<and> Default v)"
  using assms by (simp only: default_agrees_def)

subsection \<open>Loading a dumped registry\<close>

text \<open>
  Loading a struct that lists the entries of a registry, each once and in any order:
  the maps are rebuilt as they were, and the default-VLAN pointer is set to the VLAN
  flagged default.
\<close>

lemma load_listing:
  assumes wf: "wf_db d" and v1: "V1 d" and v2: "V2 d"
    and ms: "mset (VLANs yf) = map_values (vlans d)" "mset (Users yf) = map_values (users d)"
      "mset (BlockedUsers yf) = map_values (blockedUsers d)"
  shows "load_yamlFile yf = Inr (d\<lparr>defaultVLAN := find Default (VLANs yf)\<rparr>)"
    and "default_agrees (d\<lparr>defaultVLAN := find Default (VLANs yf)\<rparr>)"
    and "default_agrees d \<Longrightarrow> find Default (VLANs yf) = defaultVLAN d"
proof -
  let ?vs = "VLANs yf" and ?us = "Users yf" and ?bs = "BlockedUsers yf"
  from wf have fin: "finite (dom (vlans d))" "finite (dom (users d))"
      "finite (dom (blockedUsers d))"
    and keys: "\<forall>k v. vlans d k = Some v \<longrightarrow> ID v = k"
      "\<forall>k u. users d k = Some u \<longrightarrow> User.Username u = k"
      "\<forall>k b. blockedUsers d k = Some b \<longrightarrow> BlockedUser.Username b = k"
    by (simp_all add: wf_db_def)
  have V: "distinct (map ID ?vs)" "set ?vs = ran (vlans d)"
      "map_of (map (\<lambda>v. (ID v, v)) ?vs) = vlans d"
    using ms(1) fin(1) keys(1) by (rule listing_keys [where key = ID])+
  have U: "distinct (map User.Username ?us)" "set ?us = ran (users d)"
      "map_of (map (\<lambda>u. (User.Username u, u)) ?us) = users d"
    using ms(2) fin(2) keys(2) by (rule listing_keys [where key = User.Username])+
  have B: "distinct (map BlockedUser.Username ?bs)"
      "map_of (map (\<lambda>b. (BlockedUser.Username b, b)) ?bs) = blockedUsers d"
    using ms(3) fin(3) keys(3)
    by (rule listing_keys(1) [where key = BlockedUser.Username],
        rule listing_keys(3) [where key = BlockedUser.Username])
  have stored: "vlans d (ID v) = Some v" if "v \<in> set ?vs" for v
  proof -
    from that V(2) obtain k where "vlans d k = Some v" by (auto simp: ran_def)
    with keys(1) show ?thesis by auto
  qed
  have listed: "v \<in> set ?vs" if "vlans d i = Some v" for i v
    using that V(2) by (auto simp: ran_def)
  have one_default: "\<forall>v\<in>set ?vs. \<forall>w\<in>set ?vs. Default v \<and> Default w \<longrightarrow> v = w"
  proof (intro ballI impI)
    fix v w assume "v \<in> set ?vs" "w \<in> set ?vs" and dflt: "Default v \<and> Default w"
    then have sv: "vlans d (ID v) = Some v" and sw: "vlans d (ID w) = Some w"
      by (simp_all add: stored)
    from v1 sv _ sw have "ID v = ID w"
      by (rule V1_D) (simp_all add: dflt)
    with sv sw show "v = w" by (metis option.inject)
  qed
  have flagged: "find Default ?vs = Some v \<longleftrightarrow> (\<exists>i. vlans d i = Some v \<and> Default v)" for v
  proof
    assume "find Default ?vs = Some v"
    then have "v \<in> set ?vs" "Default v" by (auto dest: find_SomeD)
    then show "\<exists>i. vlans d i = Some v \<and> Default v"
      by (intro exI [of _ "ID v"]) (simp add: stored)
  next
    assume "\<exists>i. vlans d i = Some v \<and> Default v"
    then have v: "v \<in> set ?vs" "Default v" by (auto intro: listed)
    then have "find Default ?vs \<noteq> None" by (auto simp: find_None_iff)
    then obtain w where w: "find Default ?vs = Some w" by blast
    then have "w \<in> set ?vs" "Default w" by (auto dest: find_SomeD)
    with v one_default have "v = w" by blast
    with w show "find Default ?vs = Some v" by simp
  qed
  let ?d1 = "NewMemoryDatabase\<lparr>vlans := vlans d, defaultVLAN := find Default ?vs\<rparr>"
  have step1: "for_each CreateVLAN NewMemoryDatabase ?vs = Inr ?d1"
    using V(1) V(3) one_default by (rule load_vlans)
  have referenced: "\<forall>u\<in>set ?us. vlans ?d1 (VlanID u) \<noteq> None"
  proof
    fix u assume "u \<in> set ?us"
    with U(2) obtain k where "users d k = Some u" by (auto simp: ran_def)
    with v2 show "vlans ?d1 (VlanID u) \<noteq> None" by (simp add: V2_def)
  qed
  have step2: "for_each CreateUser ?d1 ?us = Inr (?d1\<lparr>users := users d\<rparr>)"
    using U(1) U(3) referenced by (rule load_users) (simp add: NewMemoryDatabase_def)
  let ?d2 = "?d1\<lparr>users := users d\<rparr>"
  have step3: "for_each (\<lambda>d bu. BlockUser d (BlockedUser.Username bu)) ?d2 ?bs =
      Inr (?d2\<lparr>blockedUsers := blockedUsers d\<rparr>)"
    using B(1) B(2) by (rule load_blocked) (simp add: NewMemoryDatabase_def)
  have "?d2\<lparr>blockedUsers := blockedUsers d\<rparr> = d\<lparr>defaultVLAN := find Default ?vs\<rparr>"
    by (simp add: NewMemoryDatabase_def)
  with step1 step2 step3 show "load_yamlFile yf = Inr (d\<lparr>defaultVLAN := find Default ?vs\<rparr>)"
    by (simp add: load_yamlFile_def)
  show "default_agrees (d\<lparr>defaultVLAN := find Default ?vs\<rparr>)"
    by (simp add: default_agrees_def flagged)
  show "find Default ?vs = defaultVLAN d" if agrees: "default_agrees d"
  proof (cases "defaultVLAN d")
    case None
    have "find Default ?vs = None"
    proof (rule ccontr)
      assume "find Default ?vs \<noteq> None"
      then obtain v where "find Default ?vs = Some v" by blast
      then have "\<exists>i. vlans d i = Some v \<and> Default v" by (simp only: flagged)
      with agrees have "defaultVLAN d = Some v" by (simp add: agrees_D)
      with None show False by simp
    qed
    with None show ?thesis by simp
  next
    case (Some v)
    with agrees have "\<exists>i. vlans d i = Some v \<and> Default v" by (simp add: agrees_D)
    then have "find Default ?vs = Some v" by (simp only: flagged)
    with Some show ?thesis by simp
  qed
qed

lemma assembled_lists:
  assumes "iteration_of (users d) ku" and "iteration_of (vlans d) kv"
    and "iteration_of (blockedUsers d) kb"
  shows "mset (VLANs (assemble_yamlFile L ku kv kb d)) = map_values (vlans d)"
    and "mset (Users (assemble_yamlFile L ku kv kb d)) = map_values (users d)"
    and "mset (BlockedUsers (assemble_yamlFile L ku kv kb d)) = map_values (blockedUsers d)"
  using assms
  by (simp_all add: assemble_yamlFile_def GetVLANs_def GetUsers_def GetBlockedUsers_def
      listing_mset)

text \<open>
  Claim C2.  Let the registry store every entry under its own key and satisfy V1 and
  V2.  Whatever the orders in which the three listings visit their maps,
  \<^verbatim>\<open>dumpFile\<close> to an absolute path succeeds when the operating system and the
  encoder do not fail, and \<^verbatim>\<open>loadFile\<close> of that path succeeds and gives a registry
  with the same VLANs (their \<open>default\<close> flags included), the same devices and the same
  blocked usernames.  Its default-VLAN pointer, which the load rebuilds from the flags,
  is the VLAN flagged default; so the loaded registry is the dumped one whenever the
  pointer of the dumped one agreed with its flags.
\<close>

theorem load_dump_roundtrip:
  assumes "wf_db d" and "V1 d" and "V2 d"
    and "iteration_of (users d) ku" and "iteration_of (vlans d) kv"
    and "iteration_of (blockedUsers d) kb" and "IsAbs p"
  shows
    "snd (dumpFile NoFault (assemble_yamlFile L ku kv kb d) fs p) = None \<and>
     (\<exists>d'. loadFile (fst (dumpFile NoFault (assemble_yamlFile L ku kv kb d) fs p)) p = Inr d' \<and>
        vlans d' = vlans d \<and> users d' = users d \<and> blockedUsers d' = blockedUsers d \<and>
        defaultVLAN d' = find Default (GetVLANs kv d) \<and> default_agrees d') \<and>
     (default_agrees d \<longrightarrow>
        loadFile (fst (dumpFile NoFault (assemble_yamlFile L ku kv kb d) fs p)) p = Inr d)"
proof -
  let ?yf = "assemble_yamlFile L ku kv kb d"
  let ?d' = "d\<lparr>defaultVLAN := find Default (GetVLANs kv d)\<rparr>"
  note lists = assembled_lists [OF assms(4-6), of L]
  have vs: "VLANs ?yf = GetVLANs kv d"
    by (simp add: assemble_yamlFile_def)
  have dumped: "snd (dumpFile NoFault ?yf fs p) = None"
    using assms(7) by (simp add: dumpFile_def)
  have loaded: "loadFile (fst (dumpFile NoFault ?yf fs p)) p = Inr ?d'"
    using load_listing(1) [OF assms(1-3) lists] assms(7) by (simp add: load_dumped vs)
  have agrees: "default_agrees ?d'"
    using load_listing(2) [OF assms(1-3) lists] by (simp add: vs)
  have same: "?d' = d" if "default_agrees d"
    using load_listing(3) [OF assms(1-3) lists that] by (simp add: vs)
  from loaded agrees
  have ex: "\<exists>d'. loadFile (fst (dumpFile NoFault ?yf fs p)) p = Inr d' \<and>
        vlans d' = vlans d \<and> users d' = users d \<and> blockedUsers d' = blockedUsers d \<and>
        defaultVLAN d' = find Default (GetVLANs kv d) \<and> default_agrees d'"
    by (intro exI [of _ ?d']) simp
  from loaded same
  have restored: "default_agrees d \<longrightarrow> loadFile (fst (dumpFile NoFault ?yf fs p)) p = Inr d"
    by simp
  from dumped ex restored show ?thesis
    by (intro conjI)
qed

lemma S5_state:
  "S5_registry = \<lparr>users = [mac1 \<mapsto> device1], vlans = [''1'' \<mapsto> vlan1, ''20'' \<mapsto> vlan20],
                  blockedUsers = [mac1 \<mapsto> \<lparr>BlockedUser.Username = mac1\<rparr>],
                  defaultVLAN = Some vlan1\<rparr>"
  by (simp add: S5_registry_def S3_registry_def S1_registry_def)

lemma S5_wf: "wf_db S5_registry"
  by (auto simp: S5_state wf_db_def vlan1_def vlan20_def device1_def split: if_splits)

lemma S5_V1: "V1 S5_registry"
  by (auto simp: S5_state V1_def vlan1_def vlan20_def split: if_splits)

lemma S5_V2: "V2 S5_registry"
  by (auto simp: S5_state V2_def device1_def split: if_splits)

lemma S5_agrees: "default_agrees S5_registry"
  by (auto simp: S5_state default_agrees_def vlan1_def vlan20_def split: if_splits)

lemma S5_orders:
  "iteration_of (users S5_registry) [mac1]"
  "iteration_of (vlans S5_registry) [''20'', ''1'']"
  "iteration_of (blockedUsers S5_registry) [mac1]"
  by (auto simp: S5_state iteration_of_def)

lemma S5_VLANs: "GetVLANs [''20'', ''1''] S5_registry = [vlan1, vlan20]"
  by (simp add: S5_state GetVLANs_def listing_eval vlan1_def vlan20_def Atoi_eval)

lemma S5_listing: "assemble_yamlFile id [mac1] [''20'', ''1''] [mac1] S5_registry = S5_file"
  by (simp add: assemble_yamlFile_def S5_VLANs S5_file_def)
     (simp add: S5_state GetUsers_def GetBlockedUsers_def listing_eval)

theorem load_dump_roundtrip_witness:
  "wf_db S5_registry \<and> V1 S5_registry \<and> V2 S5_registry \<and> default_agrees S5_registry \<and>
   iteration_of (users S5_registry) [mac1] \<and>
   iteration_of (vlans S5_registry) [''20'', ''1''] \<and>
   iteration_of (blockedUsers S5_registry) [mac1] \<and>
   IsAbs ''/etc/authifi.yaml'' \<and>
   assemble_yamlFile id [mac1] [''20'', ''1''] [mac1] S5_registry = S5_file \<and>
   snd (dumpFile NoFault S5_file Map.empty ''/etc/authifi.yaml'') = None \<and>
   loadFile (fst (dumpFile NoFault S5_file Map.empty ''/etc/authifi.yaml''))
     ''/etc/authifi.yaml'' = Inr S5_registry"
proof -
  have abs: "IsAbs ''/etc/authifi.yaml''"
    by (simp add: IsAbs_def)
  from S5_wf S5_V1 S5_V2 S5_agrees S5_orders abs S5_listing show ?thesis
    using load_dump_roundtrip [OF S5_wf S5_V1 S5_V2 S5_orders abs, of id Map.empty]
    by (intro conjI) (simp_all add: S5_listing)
qed

text \<open>
  The pointer of a registry need not agree with its flags: \<open>UpdateVLAN\<close> and
  \<open>DeleteVLAN\<close> do not maintain it.  After \<open>createVLAN\<close> of VLAN 20 and \<open>updateVLAN\<close> of
  it with \<open>default = true\<close> the registry satisfies V1 and V2, VLAN 20 is flagged default
  and \<open>getDefaultVLAN\<close> fails; the file dumped from it loads into a registry with the
  same VLANs in which \<open>getDefaultVLAN\<close> returns VLAN 20.
\<close>

lemma load_rebuilds_default_pointer:
  "wf_db flag_by_update \<and> V1 flag_by_update \<and> V2 flag_by_update \<and>
   assemble_yamlFile id [] [''20''] [] flag_by_update = flag_by_update_file \<and>
   snd (dumpFile NoFault flag_by_update_file Map.empty ''/etc/authifi.yaml'') = None \<and>
   loadFile (fst (dumpFile NoFault flag_by_update_file Map.empty ''/etc/authifi.yaml''))
     ''/etc/authifi.yaml'' = Inr (flag_by_update\<lparr>defaultVLAN := Some (vlan20\<lparr>Default := True\<rparr>)\<rparr>) \<and>
   GetDefaultVLAN flag_by_update = Inl ErrDefaultVLANNotFound \<and>
   GetDefaultVLAN (flag_by_update\<lparr>defaultVLAN := Some (vlan20\<lparr>Default := True\<rparr>)\<rparr>) =
     Inr (vlan20\<lparr>Default := True\<rparr>)"
proof -
  have wf: "wf_db flag_by_update"
    by (simp add: flag_by_update_state wf_db_def vlan20_def)
  have v1: "V1 flag_by_update"
    by (simp add: flag_by_update_state V1_def)
  have v2: "V2 flag_by_update"
    by (simp add: flag_by_update_state V2_def)
  have listing: "assemble_yamlFile id [] [''20''] [] flag_by_update = flag_by_update_file"
    by (simp add: flag_by_update_state flag_by_update_file_def assemble_yamlFile_def
        GetUsers_def GetVLANs_def GetBlockedUsers_def listing_eval)
  have dumped: "snd (dumpFile NoFault flag_by_update_file Map.empty ''/etc/authifi.yaml'') = None"
    by (simp add: dumpFile_def IsAbs_def)
  have loaded: "loadFile (fst (dumpFile NoFault flag_by_update_file Map.empty ''/etc/authifi.yaml''))
      ''/etc/authifi.yaml'' = Inr (flag_by_update\<lparr>defaultVLAN := Some (vlan20\<lparr>Default := True\<rparr>)\<rparr>)"
    by (simp add: load_dumped IsAbs_def load_yamlFile_def flag_by_update_file_def
        flag_by_update_state CreateVLAN_def NewMemoryDatabase_def vlan20_def)
  have before: "GetDefaultVLAN flag_by_update = Inl ErrDefaultVLANNotFound"
    by (simp add: flag_by_update_state GetDefaultVLAN_def)
  have after: "GetDefaultVLAN (flag_by_update\<lparr>defaultVLAN := Some (vlan20\<lparr>Default := True\<rparr>)\<rparr>) =
     Inr (vlan20\<lparr>Default := True\<rparr>)"
    by (simp add: GetDefaultVLAN_def)
  from wf v1 v2 listing dumped loaded before after show ?thesis
    by (intro conjI)
qed

subsection \<open>What the listings return\<close>

lemma listing_all:
  assumes "mset xs = map_values m" and "finite (dom m)"
    and "\<forall>k x. m k = Some x \<longrightarrow> key x = k"
  shows "set xs = ran m \<and> distinct (map key xs) \<and> length xs = card (dom m)"
proof -
  have d: "distinct (map key xs)" and r: "set xs = ran m"
    using assms by (rule listing_keys)+
  have "size (mset xs) = card (dom m)"
    unfolding assms(1) by (simp add: map_values_def)
  with d r show ?thesis by simp
qed

text \<open>
  The order of a listing between entries with equal keys is the order in which the map
  was visited, and every order can be: each arrangement of the VLANs of a registry that
  is sorted is what \<open>listVLANs\<close> returns for some order of visiting the map.  So the
  lists the model returns are exactly the sorted arrangements of the VLANs, and whatever
  \<^verbatim>\<open>slices.SortFunc\<close> does on a slice of more than twelve elements, it returns one
  of them.
\<close>

lemma GetVLANs_any_sorted_order:
  assumes wf: "wf_db d" and all: "mset vs = map_values (vlans d)"
    and sorted: "sorted (map (\<lambda>v. fst (Atoi (ID v))) vs)"
  shows "iteration_of (vlans d) (map ID vs) \<and> GetVLANs (map ID vs) d = vs"
proof -
  from wf have fin: "finite (dom (vlans d))"
    and keys: "\<forall>k v. vlans d k = Some v \<longrightarrow> ID v = k"
    by (simp_all add: wf_db_def)
  have dist: "distinct (map ID vs)" and ran: "set vs = ran (vlans d)"
    using all fin keys by (rule listing_keys [where key = ID])+
  have stored: "vlans d (ID v) = Some v" if "v \<in> set vs" for v
  proof -
    from that ran obtain k where "vlans d k = Some v" by (auto simp: ran_def)
    with keys show ?thesis by auto
  qed
  have "set (map ID vs) = dom (vlans d)"
  proof (intro set_eqI iffI)
    fix k assume "k \<in> set (map ID vs)"
    then show "k \<in> dom (vlans d)" by (auto simp: stored)
  next
    fix k assume "k \<in> dom (vlans d)"
    then obtain v where v: "vlans d k = Some v" by auto
    then have "v \<in> set vs" using ran by (auto simp: ran_def)
    moreover from v keys have "ID v = k" by simp
    ultimately show "k \<in> set (map ID vs)" by auto
  qed
  with dist have order: "iteration_of (vlans d) (map ID vs)"
    by (simp add: iteration_of_def)
  have "\<forall>v\<in>set ws. vlans d (ID v) = Some v \<Longrightarrow> List.map_filter (vlans d) (map ID ws) = ws"
    for ws
    by (induction ws) (simp_all add: map_filter_simps)
  then have "range_values (vlans d) (map ID vs) = vs"
    by (simp add: range_values_def stored)
  then have "GetVLANs (map ID vs) d = vs"
    using SortFunc_sorted [of "\<lambda>v. fst (Atoi (ID v))" vs, OF sorted]
    by (simp add: GetVLANs_def)
  with order show ?thesis by simp
qed

text \<open>
  Claim C7, as the code has it.  In every well-formed registry, whatever the order in
  which the map is visited, each listing method returns every entry of its map exactly
  once.  \<open>listVLANs\<close> returns the VLANs in non-decreasing order of the number
  \<^verbatim>\<open>strconv.Atoi\<close> returns for their id: for an id that is an integer text, the
  integer it denotes brought into the range of \<^verbatim>\<open>int64\<close>; for any other id 0,
  unless its leading digits pass \<^verbatim>\<open>maxUint64\<close>, when it is the bound of
  \<^verbatim>\<open>int64\<close> on the side of its sign.  \<open>listDevices\<close> and \<open>listBlocked\<close> return their
  entries in non-decreasing order of the lowercased username.  Nothing is said about
  the order between entries with equal keys.
\<close>

theorem listings_sorted:
  assumes "wf_db d" and "iteration_of (vlans d) kv" and "iteration_of (users d) ku"
    and "iteration_of (blockedUsers d) kb"
  shows
    "mset (GetVLANs kv d) = map_values (vlans d) \<and>
     set (GetVLANs kv d) = ran (vlans d) \<and> distinct (map ID (GetVLANs kv d)) \<and>
     sorted (map (\<lambda>v. fst (Atoi (ID v))) (GetVLANs kv d)) \<and>
     (\<forall>v\<in>set (GetVLANs kv d).
        fst (Atoi (ID v)) =
          (if integer_text (ID v) then max (- (2 ^ 63)) (min (2 ^ 63 - 1) (integer_value (ID v)))
           else if digits_overflow (ID v) then (if negative (ID v) then - (2 ^ 63) else 2 ^ 63 - 1)
           else 0)) \<and>
     mset (GetUsers unicode_lower ku d) = map_values (users d) \<and>
     set (GetUsers unicode_lower ku d) = ran (users d) \<and>
     distinct (map User.Username (GetUsers unicode_lower ku d)) \<and>
     sorted (map (\<lambda>u. ToLower unicode_lower (User.Username u)) (GetUsers unicode_lower ku d)) \<and>
     mset (GetBlockedUsers unicode_lower kb d) = map_values (blockedUsers d) \<and>
     set (GetBlockedUsers unicode_lower kb d) = ran (blockedUsers d) \<and>
     distinct (map BlockedUser.Username (GetBlockedUsers unicode_lower kb d)) \<and>
     sorted (map (\<lambda>b. ToLower unicode_lower (BlockedUser.Username b))
               (GetBlockedUsers unicode_lower kb d))"
proof -
  from assms(1) have fin: "finite (dom (vlans d))" "finite (dom (users d))"
      "finite (dom (blockedUsers d))"
    and keys: "\<forall>k v. vlans d k = Some v \<longrightarrow> ID v = k"
      "\<forall>k u. users d k = Some u \<longrightarrow> User.Username u = k"
      "\<forall>k b. blockedUsers d k = Some b \<longrightarrow> BlockedUser.Username b = k"
    by (simp_all add: wf_db_def)
  have v_all: "mset (GetVLANs kv d) = map_values (vlans d)"
    unfolding GetVLANs_def using assms(2) by (rule listing_mset)
  have u_all: "mset (GetUsers unicode_lower ku d) = map_values (users d)"
    unfolding GetUsers_def using assms(3) by (rule listing_mset)
  have b_all: "mset (GetBlockedUsers unicode_lower kb d) = map_values (blockedUsers d)"
    unfolding GetBlockedUsers_def using assms(4) by (rule listing_mset)
  have v_once: "set (GetVLANs kv d) = ran (vlans d)" "distinct (map ID (GetVLANs kv d))"
    using listing_all [OF v_all fin(1) keys(1)] by simp_all
  have u_once: "set (GetUsers unicode_lower ku d) = ran (users d)"
    "distinct (map User.Username (GetUsers unicode_lower ku d))"
    using listing_all [OF u_all fin(2) keys(2)] by simp_all
  have b_once: "set (GetBlockedUsers unicode_lower kb d) = ran (blockedUsers d)"
    "distinct (map BlockedUser.Username (GetBlockedUsers unicode_lower kb d))"
    using listing_all [OF b_all fin(3) keys(3)] by simp_all
  have v_sorted: "sorted (map (\<lambda>v. fst (Atoi (ID v))) (GetVLANs kv d))"
    unfolding GetVLANs_def by (rule sorted_SortFunc)
  have u_sorted: "sorted (map (\<lambda>u. ToLower unicode_lower (User.Username u))
      (GetUsers unicode_lower ku d))"
    unfolding GetUsers_def by (rule sorted_SortFunc)
  have b_sorted: "sorted (map (\<lambda>b. ToLower unicode_lower (BlockedUser.Username b))
      (GetBlockedUsers unicode_lower kb d))"
    unfolding GetBlockedUsers_def by (rule sorted_SortFunc)
  have number: "\<forall>v\<in>set (GetVLANs kv d).
        fst (Atoi (ID v)) =
          (if integer_text (ID v) then max (- (2 ^ 63)) (min (2 ^ 63 - 1) (integer_value (ID v)))
           else if digits_overflow (ID v) then (if negative (ID v) then - (2 ^ 63) else 2 ^ 63 - 1)
           else 0)"
    by (simp add: Atoi_integer Atoi_not_integer)
  from v_all v_once v_sorted number u_all u_once u_sorted b_all b_once b_sorted
  show ?thesis
    by (intro conjI)
qed

theorem listings_sorted_witness:
  "wf_db S5_registry \<and>
   iteration_of (vlans S5_registry) [''20'', ''1''] \<and>
   iteration_of (users S5_registry) [mac1] \<and>
   iteration_of (blockedUsers S5_registry) [mac1] \<and>
   GetVLANs [''20'', ''1''] S5_registry = [vlan1, vlan20] \<and>
   set [vlan1, vlan20] = ran (vlans S5_registry) \<and>
   map (\<lambda>v. fst (Atoi (ID v))) [vlan1, vlan20] = [1, 20] \<and>
   GetUsers id [mac1] S5_registry = [device1] \<and>
   GetBlockedUsers id [mac1] S5_registry = [\<lparr>BlockedUser.Username = mac1\<rparr>]"
proof -
  have k: "map (\<lambda>v. fst (Atoi (ID v))) [vlan1, vlan20] = [1, 20]"
    by (simp add: vlan1_def vlan20_def Atoi_eval)
  have l: "GetUsers id [mac1] S5_registry = [device1]"
    "GetBlockedUsers id [mac1] S5_registry = [\<lparr>BlockedUser.Username = mac1\<rparr>]"
    by (simp_all add: S5_state GetUsers_def GetBlockedUsers_def listing_eval)
  from listings_sorted [OF S5_wf S5_orders(2) S5_orders(1) S5_orders(3), of id]
  have "set (GetVLANs [''20'', ''1''] S5_registry) = ran (vlans S5_registry)"
    by (elim conjE)
  then have "set [vlan1, vlan20] = ran (vlans S5_registry)"
    by (simp only: S5_VLANs)
  with S5_wf S5_orders S5_VLANs k l show ?thesis
    by (intro conjI)
qed

text \<open>
  The claim as the specification words it promises a stable order between equal keys
  and that every id that is not an integer compares as 0.  For two VLANs whose ids are
  names, \<open>listVLANs\<close> returns them in the one or the other order, as the map happens
  to be visited.  And an id of twenty digits and a letter is not an integer and reads as
  the greatest \<^verbatim>\<open>int64\<close>, so its VLAN is listed after VLAN 5 and not before it.
\<close>

theorem equal_keys_either_order:
  "fst (Atoi (ID vlan_guest)) = 0 \<and> fst (Atoi (ID vlan_iot)) = 0 \<and>
   iteration_of (vlans named_vlans) [''guest'', ''iot''] \<and>
   iteration_of (vlans named_vlans) [''iot'', ''guest''] \<and>
   GetVLANs [''guest'', ''iot''] named_vlans = [vlan_guest, vlan_iot] \<and>
   GetVLANs [''iot'', ''guest''] named_vlans = [vlan_iot, vlan_guest] \<and>
   \<not> integer_text (ID vlan_long) \<and>
   fst (Atoi (ID vlan_long)) = 2 ^ 63 - 1 \<and>
   iteration_of (vlans long_id_vlans) [''99999999999999999999x'', ''5''] \<and>
   GetVLANs [''99999999999999999999x'', ''5''] long_id_vlans = [vlan_5, vlan_long]"
proof -
  have keys: "fst (Atoi (ID vlan_guest)) = 0" "fst (Atoi (ID vlan_iot)) = 0"
    by (simp_all add: vlan_guest_def vlan_iot_def Atoi_eval)
  have orders: "iteration_of (vlans named_vlans) [''guest'', ''iot'']"
    "iteration_of (vlans named_vlans) [''iot'', ''guest'']"
    by (auto simp: named_vlans_state iteration_of_def)
  have one: "GetVLANs [''guest'', ''iot''] named_vlans = [vlan_guest, vlan_iot]"
    by (simp add: named_vlans_state GetVLANs_def range_values_def map_filter_simps)
       (simp add: SortFunc_def insertionSortCmpFunc_def insert_last.simps Compare_def keys)
  have other: "GetVLANs [''iot'', ''guest''] named_vlans = [vlan_iot, vlan_guest]"
    by (simp add: named_vlans_state GetVLANs_def range_values_def map_filter_simps)
       (simp add: SortFunc_def insertionSortCmpFunc_def insert_last.simps Compare_def keys)
  have not_int: "\<not> integer_text (ID vlan_long)"
    by (simp add: vlan_long_def integer_text_def unsigned_part_def isDigit_def)
  have long: "fst (Atoi (ID vlan_long)) = 2 ^ 63 - 1"
    by (simp add: vlan_long_def Atoi_eval)
  have five: "fst (Atoi (ID vlan_5)) = 5"
    by (simp add: vlan_5_def Atoi_eval)
  have state: "long_id_vlans =
      \<lparr>users = Map.empty, vlans = [''99999999999999999999x'' \<mapsto> vlan_long, ''5'' \<mapsto> vlan_5],
       blockedUsers = Map.empty, defaultVLAN = None\<rparr>"
    by (simp add: long_id_vlans_def CreateVLAN_def NewMemoryDatabase_def vlan_long_def vlan_5_def)
  have order: "iteration_of (vlans long_id_vlans) [''99999999999999999999x'', ''5'']"
    by (auto simp: state iteration_of_def)
  have listed: "GetVLANs [''99999999999999999999x'', ''5''] long_id_vlans = [vlan_5, vlan_long]"
    by (simp add: state GetVLANs_def range_values_def map_filter_simps)
       (simp add: SortFunc_def insertionSortCmpFunc_def insert_last.simps Compare_def long five)
  from keys orders one other not_int long order listed show ?thesis
    by (intro conjI)
qed


section \<open>Properties of the YAML-backed registry\<close>

lemma then_save_kept:
  assumes "snd r = None" and "snd (dumpFile io yf fs (filePath y)) \<noteq> None"
  shows "snd (then_save io yf fs y r) \<noteq> None \<and>
         memory (fst (fst (then_save io yf fs y r))) = fst r"
  using assms by (cases r) (auto simp: then_save_def save_def split: prod.splits option.splits)

lemmas yaml_mutation_defs =
  yaml_CreateVLAN_def yaml_UpdateVLAN_def yaml_DeleteVLAN_def yaml_CreateUser_def
  yaml_UpdateUser_def yaml_DeleteUser_def yaml_BlockUser_def yaml_UnblockUser_def

lemma mutation_effect:
  "snd (CreateVLAN d v) = None \<Longrightarrow> GetVLAN (fst (CreateVLAN d v)) (ID v) = Inr v"
  "snd (UpdateVLAN d v) = None \<Longrightarrow> GetVLAN (fst (UpdateVLAN d v)) (ID v) = Inr v"
  "snd (DeleteVLAN d i) = None \<Longrightarrow> GetVLAN (fst (DeleteVLAN d i)) i = Inl ErrVLANNotFound"
  "snd (CreateUser d u) = None \<Longrightarrow> GetUser (fst (CreateUser d u)) (User.Username u) = Inr u"
  "snd (UpdateUser d u) = None \<Longrightarrow> GetUser (fst (UpdateUser d u)) (User.Username u) = Inr u"
  "snd (DeleteUser d n) = None \<Longrightarrow> GetUser (fst (DeleteUser d n)) n = Inl ErrUserNotFound"
  "snd (BlockUser d n) = None \<Longrightarrow> IsUserBlocked (fst (BlockUser d n)) n = Inr True"
  "snd (UnblockUser listed d n) = None \<Longrightarrow>
     IsUserBlocked (fst (UnblockUser listed d n)) n = Inr False"
  by (auto simp: mutation_defs GetVLAN_def GetUser_def GetDefaultVLAN_def IsUserBlocked_def
      Let_def split: if_splits sum.splits list.splits option.splits)


text \<open>
  Claim C8.  For each of the eight mutating methods of the YAML layer: when the method
  of the in-memory registry succeeds and the dump that follows fails, the call returns
  an error and the in-memory registry is the mutated one, so the entity created or
  updated is found there and the entity deleted or unblocked is not.
\<close>

theorem save_failure_keeps_mutation:
  assumes fails: "snd (dumpFile io yf fs (filePath y)) \<noteq> None"
  shows
    "(snd (CreateVLAN (memory y) v) = None \<longrightarrow>
        snd (yaml_CreateVLAN io yf fs y v) \<noteq> None \<and>
        memory (fst (fst (yaml_CreateVLAN io yf fs y v))) = fst (CreateVLAN (memory y) v) \<and>
        GetVLAN (memory (fst (fst (yaml_CreateVLAN io yf fs y v)))) (ID v) = Inr v) \<and>
     (snd (UpdateVLAN (memory y) v) = None \<longrightarrow>
        snd (yaml_UpdateVLAN io yf fs y v) \<noteq> None \<and>
        memory (fst (fst (yaml_UpdateVLAN io yf fs y v))) = fst (UpdateVLAN (memory y) v) \<and>
        GetVLAN (memory (fst (fst (yaml_UpdateVLAN io yf fs y v)))) (ID v) = Inr v) \<and>
     (snd (DeleteVLAN (memory y) i) = None \<longrightarrow>
        snd (yaml_DeleteVLAN io yf fs y i) \<noteq> None \<and>
        memory (fst (fst (yaml_DeleteVLAN io yf fs y i))) = fst (DeleteVLAN (memory y) i) \<and>
        GetVLAN (memory (fst (fst (yaml_DeleteVLAN io yf fs y i)))) i = Inl ErrVLANNotFound) \<and>
     (snd (CreateUser (memory y) u) = None \<longrightarrow>
        snd (yaml_CreateUser io yf fs y u) \<noteq> None \<and>
        memory (fst (fst (yaml_CreateUser io yf fs y u))) = fst (CreateUser (memory y) u) \<and>
        GetUser (memory (fst (fst (yaml_CreateUser io yf fs y u)))) (User.Username u) = Inr u) \<and>
     (snd (UpdateUser (memory y) u) = None \<longrightarrow>
        snd (yaml_UpdateUser io yf fs y u) \<noteq> None \<and>
        memory (fst (fst (yaml_UpdateUser io yf fs y u))) = fst (UpdateUser (memory y) u) \<and>
        GetUser (memory (fst (fst (yaml_UpdateUser io yf fs y u)))) (User.Username u) = Inr u) \<and>
     (snd (DeleteUser (memory y) n) = None \<longrightarrow>
        snd (yaml_DeleteUser io yf fs y n) \<noteq> None \<and>
        memory (fst (fst (yaml_DeleteUser io yf fs y n))) = fst (DeleteUser (memory y) n) \<and>
        GetUser (memory (fst (fst (yaml_DeleteUser io yf fs y n)))) n = Inl ErrUserNotFound) \<and>
     (snd (BlockUser (memory y) n) = None \<longrightarrow>
        snd (yaml_BlockUser io yf fs y n) \<noteq> None \<and>
        memory (fst (fst (yaml_BlockUser io yf fs y n))) = fst (BlockUser (memory y) n) \<and>
        IsUserBlocked (memory (fst (fst (yaml_BlockUser io yf fs y n)))) n = Inr True) \<and>
     (snd (UnblockUser listed (memory y) n) = None \<longrightarrow>
        snd (yaml_UnblockUser listed io yf fs y n) \<noteq> None \<and>
        memory (fst (fst (yaml_UnblockUser listed io yf fs y n))) =
          fst (UnblockUser listed (memory y) n) \<and>
        IsUserBlocked (memory (fst (fst (yaml_UnblockUser listed io yf fs y n)))) n = Inr False)"
proof -
  note kept = then_save_kept [OF _ fails]
  show ?thesis
    unfolding yaml_mutation_defs
    by (intro conjI impI; (frule kept)?; simp add: kept mutation_effect)
qed


theorem save_failure_keeps_mutation_witness:
  "snd (dumpFile NoFault (S5_file\<lparr>BlockedUsers := []\<rparr>) Map.empty (filePath relative_db)) =
     Some ErrRelativeFile \<and>
   snd (CreateUser (memory relative_db) device1) = None \<and>
   snd (yaml_CreateUser NoFault (S5_file\<lparr>BlockedUsers := []\<rparr>) Map.empty relative_db device1) =
     Some ErrRelativeFile \<and>
   GetUser (memory (fst (fst (yaml_CreateUser NoFault (S5_file\<lparr>BlockedUsers := []\<rparr>)
                               Map.empty relative_db device1)))) mac1 = Inr device1"
proof -
  have fails: "snd (dumpFile NoFault (S5_file\<lparr>BlockedUsers := []\<rparr>) Map.empty
                 (filePath relative_db)) \<noteq> None"
    by (simp add: dumpFile_def IsAbs_def relative_db_def NewYAMLDatabase_def)
  have call: "CreateUser (memory relative_db) device1 = (S3_registry, None)"
    by (simp add: relative_db_def NewYAMLDatabase_def CreateUser_def GetVLAN_def S3_registry_def
        S1_registry_def device1_def)
  then have created: "snd (CreateUser (memory relative_db) device1) = None"
    by simp
  have name: "User.Username device1 = mac1"
    by (simp add: device1_def)
  have err: "snd (yaml_CreateUser NoFault (S5_file\<lparr>BlockedUsers := []\<rparr>) Map.empty
               relative_db device1) = Some ErrRelativeFile"
    by (simp add: yaml_CreateUser_def then_save_def call save_def dumpFile_def IsAbs_def)
       (simp add: relative_db_def NewYAMLDatabase_def)
  have dump: "snd (dumpFile NoFault (S5_file\<lparr>BlockedUsers := []\<rparr>) Map.empty
                (filePath relative_db)) = Some ErrRelativeFile"
    by (simp add: dumpFile_def IsAbs_def relative_db_def NewYAMLDatabase_def)
  note kept = save_failure_keeps_mutation [OF fails, where u = device1 and v = vlan1
      and i = "''1''" and n = mac1 and listed = "[]", THEN conjunct2, THEN conjunct2,
      THEN conjunct2, THEN conjunct1, THEN mp, OF created]
  from kept [unfolded name] have "GetUser (memory (fst (fst (yaml_CreateUser NoFault
      (S5_file\<lparr>BlockedUsers := []\<rparr>) Map.empty relative_db device1)))) mac1 = Inr device1"
    by (elim conjE)
  with dump created err show ?thesis
    by (intro conjI)
qed

section \<open>Properties of the bounded correlation cache\<close>

subsection \<open>The invariant is kept\<close>

lemma inv_New: "cache_inv (NewLRUCache n)"
  by (simp add: cache_inv_def NewLRUCache_def)

lemma inv_Get: "cache_inv c \<Longrightarrow> cache_inv (fst (Cache_Get c k))"
  by (auto simp: cache_inv_def Cache_Get_def MoveToFront_def split: option.splits)

lemma remove1_last: "distinct xs \<Longrightarrow> xs \<noteq> [] \<Longrightarrow> remove1 (last xs) xs = butlast xs"
  by (induction xs) auto

lemma map_remove1_inj:
  "inj_on g (set xs) \<Longrightarrow> x \<in> set xs \<Longrightarrow> map g (remove1 x xs) = remove1 (g x) (map g xs)"
  by (induction xs) (auto simp: inj_on_def)

lemma inv_entry:
  assumes "cache_inv c" and "cache c k = Some e"
  shows "e \<in> set (queue c)" and "\<exists>v. entries c e = Some (k, v)"
  using assms by (auto simp: cache_inv_def)

lemma inv_queue:
  assumes "cache_inv c" and "e \<in> set (queue c)"
  shows "e < allocated c"
  using assms by (auto simp: cache_inv_def)

lemma inv_index:
  assumes "cache_inv c"
  shows "cache c k = Some e \<longleftrightarrow> e \<in> set (queue c) \<and> (\<exists>v. entries c e = Some (k, v))"
  using assms unfolding cache_inv_def by blast

lemma inv_queue_entry:
  assumes "cache_inv c" and "e \<in> set (queue c)"
  shows "\<exists>k v. entries c e = Some (k, v) \<and> cache c k = Some e"
proof -
  from assms obtain k v where "entries c e = Some (k, v)"
    by (fastforce simp: cache_inv_def)
  with assms show ?thesis
    by (auto simp: inv_index)
qed

lemma inv_absent:
  assumes "cache_inv c" and "cache c k = None" and "e \<in> set (queue c)"
  shows "entries c e \<noteq> Some (k, v)"
proof
  assume "entries c e = Some (k, v)"
  with assms(1,3) have "cache c k = Some e" by (auto simp: inv_index)
  with assms(2) show False by simp
qed

lemma Set_existing:
  assumes "cache_inv c" and "cache c k = Some e"
  shows "Cache_Set c k v =
           c\<lparr>queue := e # remove1 e (queue c), entries := (entries c)(e \<mapsto> (k, v))\<rparr>"
proof -
  from assms obtain v0 where "entries c e = Some (k, v0)" and "e \<in> set (queue c)"
    using inv_entry by metis
  with assms(2) show ?thesis
    by (simp add: Cache_Set_def MoveToFront_def)
qed

lemma Set_new_room:
  assumes "cache c k = None" and "int (length (queue c)) < capacity c"
  shows "Cache_Set c k v =
           c\<lparr>queue := allocated c # queue c,
             entries := (entries c)(allocated c \<mapsto> (k, v)),
             allocated := Suc (allocated c),
             cache := (cache c)(k \<mapsto> allocated c)\<rparr>"
  using assms by (simp add: Cache_Set_def Let_def)

lemma Set_new_full:
  assumes "cache_inv c" and "cache c k = None" and "queue c \<noteq> []"
    and "capacity c \<le> int (length (queue c))"
  shows "\<exists>k' v'. entries c (last (queue c)) = Some (k', v') \<and> k' \<noteq> k \<and>
           cache c k' = Some (last (queue c)) \<and>
           Cache_Set c k v =
             c\<lparr>queue := allocated c # butlast (queue c),
               entries := (entries c)(allocated c \<mapsto> (k, v)),
               allocated := Suc (allocated c),
               cache := (cache c)(k \<mapsto> allocated c, k' := None)\<rparr>"
proof -
  let ?old = "last (queue c)"
  have old_in: "?old \<in> set (queue c)" using assms(3) by simp
  with assms(1) obtain k' v' where old: "entries c ?old = Some (k', v')" "cache c k' = Some ?old"
    using inv_queue_entry by metis
  from assms(1) old_in have lt: "?old < allocated c" by (rule inv_queue)
  from old(2) assms(2) have neq: "k' \<noteq> k" by auto
  from assms(1) have "distinct (queue c)" by (simp add: cache_inv_def)
  with assms(3) have r: "remove1 ?old (queue c) = butlast (queue c)"
    by (simp add: remove1_last)
  have "Cache_Set c k v =
             c\<lparr>queue := allocated c # butlast (queue c),
               entries := (entries c)(allocated c \<mapsto> (k, v)),
               allocated := Suc (allocated c),
               cache := (cache c)(k \<mapsto> allocated c, k' := None)\<rparr>"
    using assms(2,3,4) old lt r
    by (simp add: Cache_Set_def Let_def Back_def)
  with old neq show ?thesis by blast
qed


lemma inv_Set:
  assumes inv: "cache_inv c" and cap: "1 \<le> capacity c"
  shows "cache_inv (Cache_Set c k v)"
proof (cases "cache c k")
  case (Some e)
  from inv Some have "e \<in> set (queue c)" "\<exists>v. entries c e = Some (k, v)"
    by (rule inv_entry)+
  then show ?thesis
    using inv unfolding Set_existing [OF inv Some]
    by (auto simp: cache_inv_def)
next
  case None
  have fresh: "allocated c \<notin> set (queue c)"
    using inv_queue [OF inv] by auto
  have absent: "\<forall>e\<in>set (queue c). \<forall>w. entries c e \<noteq> Some (k, w)"
    using inv_absent [OF inv None] by blast
  show ?thesis
  proof (cases "int (length (queue c)) < capacity c")
    case True
    show ?thesis
      using inv None fresh absent unfolding Set_new_room [OF None True]
      by (auto simp: cache_inv_def less_Suc_eq)
  next
    case False
    with cap have ne: "queue c \<noteq> []" by auto
    from False have full: "capacity c \<le> int (length (queue c))" by simp
    from Set_new_full [OF inv None ne full, of v] obtain k' v' where
      old: "entries c (last (queue c)) = Some (k', v')" "k' \<noteq> k"
        "cache c k' = Some (last (queue c))"
      and eq: "Cache_Set c k v =
             c\<lparr>queue := allocated c # butlast (queue c),
               entries := (entries c)(allocated c \<mapsto> (k, v)),
               allocated := Suc (allocated c),
               cache := (cache c)(k \<mapsto> allocated c, k' := None)\<rparr>"
      by blast
    from inv have dist: "distinct (queue c)" by (simp add: cache_inv_def)
    have q: "queue c = butlast (queue c) @ [last (queue c)]"
      using ne by simp
    have last_out: "last (queue c) \<notin> set (butlast (queue c))"
      using dist by (subst (asm) q) simp
    have mem: "e \<in> set (queue c) \<longleftrightarrow> e \<in> set (butlast (queue c)) \<or> e = last (queue c)" for e
      by (subst q) auto
    have others: "\<forall>e\<in>set (butlast (queue c)). \<forall>w. entries c e \<noteq> Some (k', w)"
    proof (intro ballI allI notI)
      fix e w assume e: "e \<in> set (butlast (queue c))" and "entries c e = Some (k', w)"
      with inv have "cache c k' = Some e" by (auto simp: inv_index mem)
      with old(3) e last_out show False by simp
    qed
    show ?thesis
      unfolding eq
      using inv None fresh absent others old last_out dist
      by (auto simp: cache_inv_def mem distinct_butlast less_Suc_eq)
  qed
qed

subsection \<open>The entries seen through the invariant\<close>

lemma map_filter_all:
  "(\<forall>x\<in>set xs. f x \<noteq> None) \<Longrightarrow> List.map_filter f xs = map (\<lambda>x. the (f x)) xs"
  by (induction xs) (auto simp: map_filter_simps)

lemma map_filter_upd:
  "a \<notin> set xs \<Longrightarrow> List.map_filter (f(a \<mapsto> y)) xs = List.map_filter f xs"
  by (induction xs) (auto simp: map_filter_simps split: option.splits)

lemma contents_map:
  assumes "cache_inv c"
  shows "contents c = map (\<lambda>e. the (entries c e)) (queue c)"
  unfolding contents_def using assms by (intro map_filter_all) (auto simp: cache_inv_def)

lemma entries_inj:
  assumes "cache_inv c"
  shows "inj_on (\<lambda>e. fst (the (entries c e))) (set (queue c))"
proof (rule inj_onI)
  fix e e' assume e: "e \<in> set (queue c)" and e': "e' \<in> set (queue c)"
    and same: "fst (the (entries c e)) = fst (the (entries c e'))"
  from inv_queue_entry [OF assms e] obtain k v where
    "entries c e = Some (k, v)" "cache c k = Some e" by blast
  moreover from inv_queue_entry [OF assms e'] obtain k' v' where
    "entries c e' = Some (k', v')" "cache c k' = Some e'" by blast
  ultimately show "e = e'" using same by simp
qed

lemma distinct_keys:
  assumes "cache_inv c"
  shows "distinct (map fst (contents c))"
proof -
  from assms have "distinct (queue c)" by (simp add: cache_inv_def)
  with entries_inj [OF assms] have "distinct (map (\<lambda>e. fst (the (entries c e))) (queue c))"
    by (simp add: distinct_map)
  then show ?thesis by (simp add: contents_map [OF assms] comp_def)
qed

lemma map_of_contents:
  assumes "cache_inv c"
  shows "map_of (contents c) k =
           (case cache c k of None \<Rightarrow> None | Some e \<Rightarrow> map_option snd (entries c e))"
proof (cases "cache c k")
  case None
  have "k \<notin> fst ` set (contents c)"
  proof
    assume "k \<in> fst ` set (contents c)"
    then obtain e where e: "e \<in> set (queue c)" and "fst (the (entries c e)) = k"
      by (auto simp: contents_map [OF assms])
    moreover from inv_queue_entry [OF assms e] obtain k' v where
      "entries c e = Some (k', v)" "cache c k' = Some e" by blast
    ultimately show False using None by simp
  qed
  then have "map_of (contents c) k = None" by (simp add: map_of_eq_None_iff)
  with None show ?thesis by simp
next
  case (Some e)
  with assms obtain v where e: "e \<in> set (queue c)" and ent: "entries c e = Some (k, v)"
    using inv_entry by metis
  then have "(k, v) \<in> set (contents c)"
    by (force simp: contents_map [OF assms])
  with distinct_keys [OF assms] have "map_of (contents c) k = Some v" by simp
  with Some ent show ?thesis by simp
qed

lemma dom_cache:
  assumes "cache_inv c"
  shows "dom (cache c) = fst ` set (contents c)"
proof -
  have "cache c k \<noteq> None \<longleftrightarrow> map_of (contents c) k \<noteq> None" for k
  proof (cases "cache c k")
    case None
    then show ?thesis by (simp add: map_of_contents [OF assms])
  next
    case (Some e)
    with assms obtain v where "entries c e = Some (k, v)" using inv_entry(2) by metis
    with Some show ?thesis by (simp add: map_of_contents [OF assms])
  qed
  then have "dom (cache c) = dom (map_of (contents c))" by (auto simp: dom_def)
  then show ?thesis by (simp add: dom_map_of_conv_image_fst)
qed

lemma card_cache:
  assumes "cache_inv c"
  shows "card (dom (cache c)) = length (contents c)"
proof -
  have "card (fst ` set (contents c)) = length (map fst (contents c))"
    using distinct_keys [OF assms] by (metis distinct_card set_map)
  then show ?thesis by (simp add: dom_cache [OF assms])
qed

lemma absent_index:
  assumes "cache_inv c" and "map_of (contents c) k = None"
  shows "cache c k = None"
proof (rule ccontr)
  assume "cache c k \<noteq> None"
  then obtain e where e: "cache c k = Some e" by blast
  with assms(1) obtain v where "entries c e = Some (k, v)" using inv_entry(2) by metis
  with e assms show False by (simp add: map_of_contents)
qed

subsection \<open>The effect of \<open>Get\<close> and \<open>Set\<close>\<close>

lemma Get_absent:
  assumes "cache_inv c" and "map_of (contents c) k = None"
  shows "Cache_Get c k = (c, None)"
  using absent_index [OF assms] by (simp add: Cache_Get_def)

lemma Get_present:
  assumes inv: "cache_inv c" and "map_of (contents c) k = Some v"
  shows "snd (Cache_Get c k) = Some v"
    and "contents (fst (Cache_Get c k)) = (k, v) # remove1 (k, v) (contents c)"
proof -
  from assms obtain e where e: "cache c k = Some e" and "map_option snd (entries c e) = Some v"
    by (auto simp: map_of_contents split: option.splits)
  moreover from inv e have in_q: "e \<in> set (queue c)" and "\<exists>w. entries c e = Some (k, w)"
    by (rule inv_entry)+
  ultimately have ent: "entries c e = Some (k, v)" by auto
  from e ent show "snd (Cache_Get c k) = Some v"
    by (simp add: Cache_Get_def)
  have inj: "inj_on (\<lambda>e. the (entries c e)) (set (queue c))"
    using entries_inj [OF inv] by (auto simp: inj_on_def)
  have "contents (fst (Cache_Get c k)) =
          map (\<lambda>e. the (entries c e)) (e # remove1 e (queue c))"
    using contents_map [OF inv_Get [OF inv, of k]] e in_q
    by (simp add: Cache_Get_def MoveToFront_def)
  also have "\<dots> = (k, v) # remove1 (k, v) (map (\<lambda>e. the (entries c e)) (queue c))"
    using map_remove1_inj [OF inj in_q] ent by simp
  finally show "contents (fst (Cache_Get c k)) = (k, v) # remove1 (k, v) (contents c)"
    by (simp add: contents_map [OF inv])
qed

lemma Set_present:
  assumes inv: "cache_inv c" and present: "map_of (contents c) k = Some w"
  shows "contents (Cache_Set c k v) = (k, v) # remove1 (k, w) (contents c)"
proof -
  from assms obtain e where e: "cache c k = Some e" and "map_option snd (entries c e) = Some w"
    by (auto simp: map_of_contents split: option.splits)
  moreover from inv e have in_q: "e \<in> set (queue c)" and "\<exists>x. entries c e = Some (k, x)"
    by (rule inv_entry)+
  ultimately have ent: "entries c e = Some (k, w)" by auto
  from inv have dist: "distinct (queue c)" by (simp add: cache_inv_def)
  then have out: "e \<notin> set (remove1 e (queue c))" by simp
  have inj: "inj_on (\<lambda>e. the (entries c e)) (set (queue c))"
    using entries_inj [OF inv] by (auto simp: inj_on_def)
  have defined: "\<forall>x\<in>set (remove1 e (queue c)). entries c x \<noteq> None"
    using inv by (auto simp: cache_inv_def dest: notin_set_remove1)
  have "contents (Cache_Set c k v) =
          (k, v) # List.map_filter ((entries c)(e \<mapsto> (k, v))) (remove1 e (queue c))"
    unfolding Set_existing [OF inv e] contents_def by (simp add: map_filter_simps)
  also have "List.map_filter ((entries c)(e \<mapsto> (k, v))) (remove1 e (queue c)) =
             List.map_filter (entries c) (remove1 e (queue c))"
    using out by (rule map_filter_upd)
  also have "\<dots> = map (\<lambda>e. the (entries c e)) (remove1 e (queue c))"
    using defined by (rule map_filter_all)
  also have "\<dots> = remove1 (k, w) (map (\<lambda>e. the (entries c e)) (queue c))"
    using map_remove1_inj [OF inj in_q] ent by simp
  finally show ?thesis
    by (simp add: contents_map [OF inv])
qed

lemma Set_then_Get:
  assumes inv: "cache_inv c" and cap: "1 \<le> capacity c"
  shows "snd (Cache_Get (Cache_Set c k v) k) = Some v"
proof (cases "cache c k")
  case (Some e)
  show ?thesis
    unfolding Set_existing [OF inv Some] using Some by (simp add: Cache_Get_def)
next
  case None
  show ?thesis
  proof (cases "int (length (queue c)) < capacity c")
    case True
    show ?thesis
      unfolding Set_new_room [OF None True] by (simp add: Cache_Get_def)
  next
    case False
    with cap have ne: "queue c \<noteq> []" by auto
    from False have full: "capacity c \<le> int (length (queue c))" by simp
    from Set_new_full [OF inv None ne full, of v] obtain k' v' where
      "k' \<noteq> k" and eq: "Cache_Set c k v =
             c\<lparr>queue := allocated c # butlast (queue c),
               entries := (entries c)(allocated c \<mapsto> (k, v)),
               allocated := Suc (allocated c),
               cache := (cache c)(k \<mapsto> allocated c, k' := None)\<rparr>"
      by blast
    then show ?thesis
      unfolding eq by (simp add: Cache_Get_def)
  qed
qed

lemma Set_evicts_oldest:
  assumes inv: "cache_inv c" and cap: "1 \<le> capacity c"
    and new: "map_of (contents c) k = None"
    and full: "int (length (contents c)) = capacity c"
  shows "contents (Cache_Set c k v) = (k, v) # butlast (contents c)"
proof -
  have len: "length (contents c) = length (queue c)"
    by (simp add: contents_map [OF inv])
  have None: "cache c k = None"
    using inv new by (rule absent_index)
  from cap full len have ne: "queue c \<noteq> []" by auto
  from full len have "capacity c \<le> int (length (queue c))" by simp
  from Set_new_full [OF inv None ne this, of v] obtain k' v' where
    eq: "Cache_Set c k v =
             c\<lparr>queue := allocated c # butlast (queue c),
               entries := (entries c)(allocated c \<mapsto> (k, v)),
               allocated := Suc (allocated c),
               cache := (cache c)(k \<mapsto> allocated c, k' := None)\<rparr>"
    by blast
  have fresh: "allocated c \<notin> set (butlast (queue c))"
    using inv_queue [OF inv] by (meson in_set_butlastD less_irrefl)
  have "contents (Cache_Set c k v) = (k, v) # List.map_filter (entries c) (butlast (queue c))"
    unfolding eq contents_def using fresh
    by (simp add: map_filter_simps map_filter_upd)
  also have "List.map_filter (entries c) (butlast (queue c)) =
             map (\<lambda>e. the (entries c e)) (butlast (queue c))"
    using inv by (intro map_filter_all) (auto simp: cache_inv_def dest: in_set_butlastD)
  also have "\<dots> = butlast (contents c)"
    by (simp add: contents_map [OF inv] map_butlast)
  finally show ?thesis .
qed

lemma Set_room:
  assumes inv: "cache_inv c" and new: "map_of (contents c) k = None"
    and room: "int (length (contents c)) < capacity c"
  shows "contents (Cache_Set c k v) = (k, v) # contents c"
proof -
  have len: "length (contents c) = length (queue c)"
    by (simp add: contents_map [OF inv])
  have None: "cache c k = None"
    using inv new by (rule absent_index)
  from room len have "int (length (queue c)) < capacity c" by simp
  note eq = Set_new_room [OF None this, of v]
  have "allocated c \<notin> set (queue c)"
    using inv_queue [OF inv] by auto
  then show ?thesis
    unfolding eq contents_def by (simp add: map_filter_simps map_filter_upd)
qed

lemma bound_Set:
  assumes inv: "cache_inv c" and cap: "1 \<le> capacity c"
    and bound: "int (length (queue c)) \<le> capacity c"
  shows "capacity (Cache_Set c k v) = capacity c \<and>
         int (length (queue (Cache_Set c k v))) \<le> capacity c"
proof (cases "cache c k")
  case (Some e)
  from inv Some have "e \<in> set (queue c)" by (rule inv_entry)
  then have "length (remove1 e (queue c)) = length (queue c) - 1"
    by (simp add: length_remove1)
  moreover from \<open>e \<in> set (queue c)\<close> have "0 < length (queue c)"
    by (cases "queue c") auto
  ultimately show ?thesis
    unfolding Set_existing [OF inv Some] using bound by simp
next
  case None
  show ?thesis
  proof (cases "int (length (queue c)) < capacity c")
    case True
    show ?thesis
      unfolding Set_new_room [OF None True] using True by simp
  next
    case False
    with cap have ne: "queue c \<noteq> []" by auto
    from False have full: "capacity c \<le> int (length (queue c))" by simp
    from Set_new_full [OF inv None ne full, of v] obtain k' v' where
      eq: "Cache_Set c k v =
             c\<lparr>queue := allocated c # butlast (queue c),
               entries := (entries c)(allocated c \<mapsto> (k, v)),
               allocated := Suc (allocated c),
               cache := (cache c)(k \<mapsto> allocated c, k' := None)\<rparr>"
      by blast
    from ne have "0 < length (queue c)" by simp
    then show ?thesis
      unfolding eq using bound by simp
  qed
qed

lemma bound_Get:
  "capacity (fst (Cache_Get c k)) = capacity c \<and>
   length (queue (fst (Cache_Get c k))) = length (queue c)"
proof (cases "cache c k")
  case None
  then show ?thesis by (simp add: Cache_Get_def)
next
  case (Some e)
  have "length (MoveToFront e (queue c)) = length (queue c)"
  proof (cases "e \<in> set (queue c)")
    case True
    then have "0 < length (queue c)" by (cases "queue c") auto
    with True show ?thesis by (simp add: MoveToFront_def length_remove1)
  next
    case False
    then show ?thesis by (simp add: MoveToFront_def)
  qed
  with Some show ?thesis by (simp add: Cache_Get_def)
qed

subsection \<open>Every cache built from \<open>NewLRUCache\<close>\<close>

lemma ok_step:
  assumes "1 \<le> n" and "cache_ok n c"
  shows "cache_ok n (apply_cache_op c x)"
proof (cases x)
  case (OpSet k v)
  with assms show ?thesis
    using inv_Set [of c k v] bound_Set [of c k v] by (simp add: cache_ok_def)
next
  case (OpGet k)
  with assms show ?thesis
    using inv_Get [of c k] bound_Get [of c k] by (simp add: cache_ok_def)
qed

lemma ok_run:
  assumes "1 \<le> n" and "cache_ok n c"
  shows "cache_ok n (run_cache_ops c ops)"
  using assms(2) unfolding run_cache_ops_def
  by (induction ops arbitrary: c) (simp_all add: ok_step [OF assms(1)])

lemma ok_New: "0 \<le> n \<Longrightarrow> cache_ok n (NewLRUCache n)"
  by (simp add: cache_ok_def inv_New) (simp add: NewLRUCache_def)

text \<open>
  Claim C9.  For a cache of capacity \<open>n \<ge> 1\<close> and every cache \<open>c\<close> reached from
  \<open>NewLRUCache n\<close> by a sequence of \<open>Set\<close> and \<open>Get\<close> calls: \<open>c\<close> holds at most \<open>n\<close>
  entries, one for each key of its map; \<open>Set\<close> is a total function, and a \<open>Get\<close> of the
  key just set returns the value set; setting a key that is absent when \<open>c\<close> holds \<open>n\<close>
  entries puts the new entry in front and removes exactly the entry at the back, the
  least recently used one, and when \<open>c\<close> holds fewer than \<open>n\<close> entries it removes none;
  setting a key that is present puts its entry, with the new value, in front and leaves
  the others in place; \<open>Get\<close> of a key that is present returns its value with \<open>true\<close> and moves its entry to
  the front, leaving the others in place; \<open>Get\<close> of a key that is absent returns \<open>false\<close>
  and leaves the cache as it is.
\<close>

theorem lru_cache_contract:
  fixes n :: int and ops :: "('k, 'v) cache_op list"
  assumes "1 \<le> n"
  defines "c \<equiv> run_cache_ops (NewLRUCache n) ops"
  shows
    "int (length (contents c)) \<le> n \<and>
     card (dom (cache c)) = length (contents c) \<and>
     snd (Cache_Get (Cache_Set c k v) k) = Some v \<and>
     (map_of (contents c) k = None \<and> int (length (contents c)) = n \<longrightarrow>
        contents (Cache_Set c k v) = (k, v) # butlast (contents c)) \<and>
     (map_of (contents c) k = None \<and> int (length (contents c)) < n \<longrightarrow>
        contents (Cache_Set c k v) = (k, v) # contents c) \<and>
     (\<forall>w. map_of (contents c) k = Some w \<longrightarrow>
        contents (Cache_Set c k v) = (k, v) # remove1 (k, w) (contents c)) \<and>
     (\<forall>w. map_of (contents c) k = Some w \<longrightarrow>
        snd (Cache_Get c k) = Some w \<and>
        contents (fst (Cache_Get c k)) = (k, w) # remove1 (k, w) (contents c)) \<and>
     (map_of (contents c) k = None \<longrightarrow> Cache_Get c k = (c, None))"
proof -
  have "cache_ok n c"
    unfolding c_def using assms(1) by (intro ok_run ok_New) simp_all
  then have inv: "cache_inv c" and cap: "capacity c = n" and bound: "int (length (queue c)) \<le> n"
    by (simp_all add: cache_ok_def)
  from cap assms(1) have cap1: "1 \<le> capacity c" by simp
  have len: "length (contents c) = length (queue c)"
    by (simp add: contents_map [OF inv])
  have size: "int (length (contents c)) \<le> n"
    using bound len by simp
  have evict: "map_of (contents c) k = None \<and> int (length (contents c)) = n \<longrightarrow>
      contents (Cache_Set c k v) = (k, v) # butlast (contents c)"
    using Set_evicts_oldest [OF inv cap1] cap by simp
  have room: "map_of (contents c) k = None \<and> int (length (contents c)) < n \<longrightarrow>
      contents (Cache_Set c k v) = (k, v) # contents c"
    using Set_room [OF inv] cap by simp
  have update: "\<forall>w. map_of (contents c) k = Some w \<longrightarrow>
      contents (Cache_Set c k v) = (k, v) # remove1 (k, w) (contents c)"
    using Set_present [OF inv] by blast
  have hit: "\<forall>w. map_of (contents c) k = Some w \<longrightarrow>
      snd (Cache_Get c k) = Some w \<and>
      contents (fst (Cache_Get c k)) = (k, w) # remove1 (k, w) (contents c)"
    using Get_present [OF inv] by blast
  have miss: "map_of (contents c) k = None \<longrightarrow> Cache_Get c k = (c, None)"
    using Get_absent [OF inv] by blast
  from size card_cache [OF inv] Set_then_Get [OF inv cap1] evict room update hit miss
  show ?thesis by (intro conjI)
qed

lemma demo_cache_state:
  "demo_cache =
     \<lparr>capacity = 2, cache = [''t1'' \<mapsto> 0, ''t2'' \<mapsto> 1], queue = [0, 1],
      entries = [0 \<mapsto> (''t1'', 10), 1 \<mapsto> (''t2'', 20)], allocated = 2\<rparr>"
  by (simp add: demo_cache_def demo_ops_def run_cache_ops_def NewLRUCache_def Cache_Set_def
      Cache_Get_def MoveToFront_def Back_def Let_def)

lemma demo_contents: "contents demo_cache = [(''t1'', 10), (''t2'', 20)]"
  by (simp add: demo_cache_state contents_def map_filter_simps)

lemma demo_promoted:
  "contents (Cache_Set (Cache_Set demo_cache ''t2'' 25) ''t3'' 30) = [(''t3'', 30), (''t2'', 25)]"
  by (simp add: demo_cache_state contents_def Cache_Set_def MoveToFront_def Back_def Let_def
      map_filter_simps)

theorem lru_cache_contract_witness:
  "(1::int) \<le> 2 \<and>
   contents demo_cache = [(''t1'', 10), (''t2'', 20)] \<and>
   card (dom (cache demo_cache)) = 2 \<and>
   contents (Cache_Set demo_cache ''t3'' 30) = [(''t3'', 30), (''t1'', 10)] \<and>
   contents (Cache_Set demo_cache ''t2'' 25) = [(''t2'', 25), (''t1'', 10)] \<and>
   contents (Cache_Set (Cache_Set demo_cache ''t2'' 25) ''t3'' 30) = [(''t3'', 30), (''t2'', 25)] \<and>
   snd (Cache_Get demo_cache ''t2'') = Some 20 \<and>
   contents (fst (Cache_Get demo_cache ''t2'')) = [(''t2'', 20), (''t1'', 10)] \<and>
   Cache_Get demo_cache ''t3'' = (demo_cache, None)"
  using lru_cache_contract [of 2 demo_ops "''t3''" 30]
    lru_cache_contract [of 2 demo_ops "''t2''" 25]
  by (simp add: demo_cache_def [symmetric] demo_contents demo_promoted)

end
